theory Spec2Isabelle
  imports Complex_Main "HOL-Library.Word"
begin

unbundle bit_operations_syntax

section \<open>Geometry layouts: data model (src/js/geometry-layout.js)\<close>

text \<open>
  The enums of the source are objects that map a name to a number and the number back to
  the name.  Each is modelled by a datatype of the names, a function for the forward
  table and a partial function for the reverse table (\<open>None\<close> is JavaScript's
  \<open>undefined\<close>, the result of reading a missing key).
\<close>

datatype GPUPrimitiveTopology = point_list | line_list | line_strip | triangle_strip | triangle_list

fun TopologyId :: "GPUPrimitiveTopology \<Rightarrow> nat" where
  "TopologyId point_list = 0"
| "TopologyId line_list = 1"
| "TopologyId line_strip = 2"
| "TopologyId triangle_strip = 3"
| "TopologyId triangle_list = 4"

definition TopologyName :: "nat \<Rightarrow> GPUPrimitiveTopology option" where
  "TopologyName n =
     (if n = 0 then Some point_list else if n = 1 then Some line_list
      else if n = 2 then Some line_strip else if n = 3 then Some triangle_strip
      else if n = 4 then Some triangle_list else None)"

definition TopologyMask :: nat where
  "TopologyMask = TopologyId point_list OR TopologyId line_list OR TopologyId line_strip
     OR TopologyId triangle_strip OR TopologyId triangle_list"

datatype GPUIndexFormat = index_uint16 | index_uint32

fun StripIndexFormatId :: "GPUIndexFormat \<Rightarrow> nat" where
  "StripIndexFormatId index_uint16 = 0"
| "StripIndexFormatId index_uint32 = 8"

definition StripIndexFormatName :: "nat \<Rightarrow> GPUIndexFormat option" where
  "StripIndexFormatName n =
     (if n = 0 then Some index_uint16 else if n = 8 then Some index_uint32 else None)"

datatype GPUVertexFormat =
    uint8x2 | uint8x4 | sint8x2 | sint8x4 | unorm8x2 | unorm8x4 | snorm8x2 | snorm8x4
  | uint16x2 | uint16x4 | sint16x2 | sint16x4 | unorm16x2 | unorm16x4 | snorm16x2 | snorm16x4
  | float16x2 | float16x4 | float32 | float32x2 | float32x3 | float32x4
  | uint32 | uint32x2 | uint32x3 | uint32x4 | sint32 | sint32x2 | sint32x3 | sint32x4

fun FormatId :: "GPUVertexFormat \<Rightarrow> nat" where
  "FormatId uint8x2 = 0"
| "FormatId uint8x4 = 1"
| "FormatId sint8x2 = 2"
| "FormatId sint8x4 = 3"
| "FormatId unorm8x2 = 4"
| "FormatId unorm8x4 = 5"
| "FormatId snorm8x2 = 6"
| "FormatId snorm8x4 = 7"
| "FormatId uint16x2 = 8"
| "FormatId uint16x4 = 9"
| "FormatId sint16x2 = 10"
| "FormatId sint16x4 = 11"
| "FormatId unorm16x2 = 12"
| "FormatId unorm16x4 = 13"
| "FormatId snorm16x2 = 14"
| "FormatId snorm16x4 = 15"
| "FormatId float16x2 = 16"
| "FormatId float16x4 = 17"
| "FormatId float32 = 18"
| "FormatId float32x2 = 19"
| "FormatId float32x3 = 20"
| "FormatId float32x4 = 21"
| "FormatId uint32 = 22"
| "FormatId uint32x2 = 23"
| "FormatId uint32x3 = 24"
| "FormatId uint32x4 = 25"
| "FormatId sint32 = 26"
| "FormatId sint32x2 = 27"
| "FormatId sint32x3 = 28"
| "FormatId sint32x4 = 29"

definition FormatNames :: "GPUVertexFormat list" where
  "FormatNames =
    [uint8x2, uint8x4, sint8x2, sint8x4, unorm8x2, unorm8x4, snorm8x2, snorm8x4,
     uint16x2, uint16x4, sint16x2, sint16x4, unorm16x2, unorm16x4, snorm16x2, snorm16x4,
     float16x2, float16x4, float32, float32x2, float32x3, float32x4,
     uint32, uint32x2, uint32x3, uint32x4, sint32, sint32x2, sint32x3, sint32x4]"

definition FormatName :: "nat \<Rightarrow> GPUVertexFormat option" where
  "FormatName n = (if n < length FormatNames then Some (FormatNames ! n) else None)"

datatype GPUVertexStepMode = step_vertex | step_instance

fun StepModeId :: "GPUVertexStepMode \<Rightarrow> nat" where
  "StepModeId step_vertex = 0"
| "StepModeId step_instance = 32768"

definition StepModeName :: "nat \<Rightarrow> GPUVertexStepMode option" where
  "StepModeName n =
     (if n = 0 then Some step_vertex else if n = 32768 then Some step_instance else None)"

text \<open>
  Attributes, buffers and layouts.  A field that the source may leave \<open>undefined\<close> is an
  option: \<open>stepMode\<close> (the copy made by \<open>createLayout\<close> has none), \<open>format\<close> and
  \<open>topology\<close> (the decoder reads them from the reverse tables), \<open>stripIndexFormat\<close>
  (set by the constructor for strip topologies only), \<open>id\<close> (set on registration) and
  the two private caches of the serialised forms.  Offsets, strides and shader locations
  are the unsigned integers of the WebGPU types.
\<close>

record GPUVertexAttribute =
  shaderLocation :: nat
  format :: "GPUVertexFormat option"
  offset :: nat

record GPUVertexBufferLayout =
  arrayStride :: nat
  stepMode :: "GPUVertexStepMode option"
  attributes :: "GPUVertexAttribute list"

type_synonym byte = "8 word"

record GeometryLayout =
  layout_id :: "nat option"
  buffers :: "GPUVertexBufferLayout list"
  topology :: "GPUPrimitiveTopology option"
  stripIndexFormat :: "GPUIndexFormat option"
  serializedBuffer :: "byte list option"
  serializedString :: "string option"

text \<open>The constructor: \<open>stripIndexFormat\<close> is set for the two strip topologies only.\<close>

definition GeometryLayout_new ::
  "GPUVertexBufferLayout list \<Rightarrow> GPUPrimitiveTopology option \<Rightarrow> GPUIndexFormat \<Rightarrow> GeometryLayout" where
  "GeometryLayout_new bufs topo indexFormat =
     \<lparr> layout_id = None, buffers = bufs, topology = topo,
       stripIndexFormat =
         (if topo = Some triangle_strip \<or> topo = Some line_strip then Some indexFormat else None),
       serializedBuffer = None, serializedString = None \<rparr>"

section \<open>The codec\<close>

subsection \<open>JavaScript numbers and DataView stores\<close>

text \<open>
  \<open>x << n\<close> converts \<open>x\<close> to a signed 32-bit integer, shifts, and keeps 32 bits.
  \<open>setUint16\<close> and \<open>setUint8\<close> store the value modulo \<open>2^16\<close> and \<open>2^8\<close>; the
  16-bit stores of the source are little-endian.
\<close>

definition ToInt32 :: "int \<Rightarrow> int" where
  "ToInt32 x = (x + 2 ^ 31) mod 2 ^ 32 - 2 ^ 31"

definition shl :: "int \<Rightarrow> nat \<Rightarrow> int" where
  "shl x n = ToInt32 (ToInt32 x * 2 ^ n)"

definition setUint8 :: "int \<Rightarrow> byte list" where
  "setUint8 v = [word_of_int v]"

definition setUint16 :: "int \<Rightarrow> byte list" where
  "setUint16 v = [word_of_int v, word_of_int ((v mod 65536) div 256)]"

definition getUint16 :: "byte \<Rightarrow> byte \<Rightarrow> nat" where
  "getUint16 b0 b1 = unat b0 + 256 * unat b1"

subsection \<open>serializeToBuffer and serializeToString\<close>

definition encodeAttrib :: "GPUVertexAttribute \<Rightarrow> byte list" where
  "encodeAttrib attrib =
     (let attribData16 = int (offset attrib) + shl (int (shaderLocation attrib)) 12
      in setUint16 attribData16 @
         setUint8 (case format attrib of None \<Rightarrow> 0 | Some f \<Rightarrow> int (FormatId f)))"

definition encodeBuffer :: "GPUVertexBufferLayout \<Rightarrow> byte list" where
  "encodeBuffer buffer =
     (let bufferData16 = int (length (attributes buffer))
                         + shl (int (arrayStride buffer)) 4
                         + int (StepModeId (case stepMode buffer of None \<Rightarrow> step_vertex | Some m \<Rightarrow> m))
      in setUint16 bufferData16 @ concat (map encodeAttrib (attributes buffer)))"

text \<open>
  The body of \<open>serializeToBuffer\<close> after the cache test.  \<open>TopologyId[undefined]\<close> is
  \<open>undefined\<close>, which \<open>setUint8\<close> stores as 0 (also after adding a number to it).
\<close>

definition encodeLayout :: "GeometryLayout \<Rightarrow> byte list" where
  "encodeLayout this =
     (let topologyData8 =
            (case topology this of None \<Rightarrow> 0
             | Some t \<Rightarrow> (case stripIndexFormat this of None \<Rightarrow> int (TopologyId t)
                          | Some f \<Rightarrow> int (TopologyId t) + int (StripIndexFormatId f)))
      in setUint8 topologyData8 @ concat (map encodeBuffer (buffers this)))"

definition serializeToBuffer :: "GeometryLayout \<Rightarrow> byte list \<times> GeometryLayout" where
  "serializeToBuffer this =
     (case serializedBuffer this of
        Some b \<Rightarrow> (b, this)
      | None \<Rightarrow> (let outBuffer = encodeLayout this
                 in (outBuffer, this\<lparr>serializedBuffer := Some outBuffer\<rparr>)))"

definition hexDigit :: "nat \<Rightarrow> char" where
  "hexDigit n = ''0123456789abcdef'' ! n"

definition Uint8ToHex :: "byte \<Rightarrow> string" where
  "Uint8ToHex b = [hexDigit (unat b div 16), hexDigit (unat b mod 16)]"

definition HexToUint8_table :: "(string \<times> byte) list" where
  "HexToUint8_table = map (\<lambda>i. (Uint8ToHex (of_nat i), of_nat i)) [0..<256]"

definition HexToUint8 :: "string \<Rightarrow> byte option" where
  "HexToUint8 s = map_of HexToUint8_table s"

text \<open>A cached string is used when it is truthy, that is, not empty.\<close>

definition serializeToString :: "GeometryLayout \<Rightarrow> string \<times> GeometryLayout" where
  "serializeToString this =
     (case serializedString this of
        Some s \<Rightarrow> (if s \<noteq> [] then (s, this)
                   else (let (array, this') = serializeToBuffer this;
                             outStr = concat (map Uint8ToHex array)
                         in (outStr, this'\<lparr>serializedString := Some outStr\<rparr>)))
      | None \<Rightarrow> (let (array, this') = serializeToBuffer this;
                     outStr = concat (map Uint8ToHex array)
                 in (outStr, this'\<lparr>serializedString := Some outStr\<rparr>)))"

subsection \<open>deserializeFromBuffer and deserializeFromString\<close>

datatype error = RangeError | TypeError | Error string

text \<open>
  The decoder walks the view from offset 1; here the bytes still to be read are the list.
  A read past the end of the view throws \<open>RangeError\<close>.
\<close>

definition decodeAttrib :: "byte \<Rightarrow> byte \<Rightarrow> byte \<Rightarrow> GPUVertexAttribute" where
  "decodeAttrib b0 b1 b2 =
     (let attribData16 = getUint16 b0 b1
      in \<lparr> shaderLocation = (drop_bit 12 attribData16) AND 0x0F,
           format = FormatName (unat b2),
           offset = attribData16 AND 0x0FFF \<rparr>)"

fun readAttribs :: "nat \<Rightarrow> byte list \<Rightarrow> error + (GPUVertexAttribute list \<times> byte list)" where
  "readAttribs 0 bs = Inr ([], bs)"
| "readAttribs (Suc n) (b0 # b1 # b2 # bs) =
     (case readAttribs n bs of
        Inl e \<Rightarrow> Inl e
      | Inr (as, rest) \<Rightarrow> Inr (decodeAttrib b0 b1 b2 # as, rest))"
| "readAttribs (Suc n) bs = Inl RangeError"

lemma readAttribs_length:
  "readAttribs n bs = Inr (as, rest) \<Longrightarrow> length rest \<le> length bs"
proof (induction n bs arbitrary: as rest rule: readAttribs.induct)
  case (2 n b0 b1 b2 bs)
  then show ?case by (auto split: sum.splits prod.splits)
qed auto

function readBuffers :: "byte list \<Rightarrow> error + GPUVertexBufferLayout list" where
  "readBuffers [] = Inr []"
| "readBuffers [b0] = Inl RangeError"
| "readBuffers (b0 # b1 # bs) =
     (let bufferData16 = getUint16 b0 b1;
          attribCount = bufferData16 AND 0x0F
      in case readAttribs attribCount bs of
           Inl e \<Rightarrow> Inl e
         | Inr (as, rest) \<Rightarrow>
             (case readBuffers rest of
                Inl e \<Rightarrow> Inl e
              | Inr bufs \<Rightarrow>
                  Inr (\<lparr> arrayStride = (drop_bit 4 bufferData16) AND 0x08FF,
                         stepMode = StepModeName (bufferData16 AND 0x8000),
                         attributes = as \<rparr> # bufs)))"
  by pat_completeness auto
termination
  by (relation "measure length") (auto dest: readAttribs_length)

text \<open>
  \<open>new DataView(inBuffer, bufferOffset, bufferLength)\<close>: both numbers are optional and
  the window must lie inside the buffer.
\<close>

definition DataView_new :: "byte list \<Rightarrow> nat option \<Rightarrow> nat option \<Rightarrow> error + byte list" where
  "DataView_new inBuffer bufferOffset bufferLength =
     (let off = (case bufferOffset of None \<Rightarrow> 0 | Some n \<Rightarrow> n)
      in if off > length inBuffer then Inl RangeError
         else (case bufferLength of
                 None \<Rightarrow> Inr (drop off inBuffer)
               | Some n \<Rightarrow> if off + n > length inBuffer then Inl RangeError
                           else Inr (take n (drop off inBuffer))))"

definition decodeView :: "byte list \<Rightarrow> error + GeometryLayout" where
  "decodeView dataView =
     (case dataView of
        [] \<Rightarrow> Inl RangeError
      | b # bs \<Rightarrow>
          (let topologyData8 = unat b;
               topo = TopologyName (topologyData8 AND TopologyMask);
               stripFormat =
                 (if topo = Some triangle_strip \<or> topo = Some line_strip
                  then StripIndexFormatName (topologyData8 AND 0x08) else Some index_uint32)
           in case readBuffers bs of
                Inl e \<Rightarrow> Inl e
              | Inr bufs \<Rightarrow>
                  Inr (GeometryLayout_new bufs topo
                        (case stripFormat of Some f \<Rightarrow> f | None \<Rightarrow> index_uint32))))"

definition deserializeFromBuffer ::
  "byte list \<Rightarrow> nat option \<Rightarrow> nat option \<Rightarrow> error + GeometryLayout" where
  "deserializeFromBuffer inBuffer bufferOffest bufferLength =
     (case DataView_new inBuffer bufferOffest bufferLength of
        Inl e \<Rightarrow> Inl e
      | Inr dataView \<Rightarrow> decodeView dataView)"

text \<open>
  \<open>deserializeFromString\<close>: one byte for every two characters (a trailing odd character
  is not read); a pair that is not in the table stores \<open>undefined\<close>, which a
  \<open>Uint8Array\<close> keeps as 0.  The decoded layout keeps the bytes and the string.
\<close>

definition hexBytes :: "string \<Rightarrow> byte list" where
  "hexBytes value =
     map (\<lambda>i. case HexToUint8 (take 2 (drop (i * 2) value)) of Some b \<Rightarrow> b | None \<Rightarrow> 0)
         [0..<length value div 2]"

definition deserializeFromString :: "string \<Rightarrow> error + GeometryLayout" where
  "deserializeFromString value =
     (let array = hexBytes value
      in case deserializeFromBuffer array None None of
           Inl e \<Rightarrow> Inl e
         | Inr layout \<Rightarrow>
             Inr (layout\<lparr>serializedBuffer := Some array, serializedString := Some value\<rparr>))"

section \<open>GeometryLayoutCache\<close>

text \<open>
  Layout objects have an identity: \<open>createLayout\<close> returns either the object it has just
  built or the one registered earlier.  Objects therefore live in a store, addressed by
  references, and a cache holds references.  The state is the store together with the
  three private fields of one cache instance.
\<close>

type_synonym ref = nat

record cache_state =
  heap :: "ref \<rightharpoonup> GeometryLayout"
  nextRef :: ref
  nextId :: nat
  keyMap :: "string \<rightharpoonup> nat"
  cache :: "nat \<rightharpoonup> ref"

definition new_cache :: cache_state where
  "new_cache = \<lparr> heap = Map.empty, nextRef = 0, nextId = 1, keyMap = Map.empty, cache = Map.empty \<rparr>"

definition alloc :: "cache_state \<Rightarrow> GeometryLayout \<Rightarrow> ref \<times> cache_state" where
  "alloc st obj =
     (nextRef st, st\<lparr> heap := (heap st)(nextRef st \<mapsto> obj), nextRef := Suc (nextRef st) \<rparr>)"

definition getLayout :: "cache_state \<Rightarrow> nat \<Rightarrow> ref option" where
  "getLayout st i = cache st i"

definition addLayoutToCache :: "cache_state \<Rightarrow> ref \<Rightarrow> string \<Rightarrow> ref \<times> cache_state" where
  "addLayoutToCache st layout key =
     (let i = nextId st
      in (layout,
          st\<lparr> nextId := i + 1,
              heap := (heap st)(layout := map_option (\<lambda>obj. obj\<lparr>layout_id := Some i\<rparr>) (heap st layout)),
              keyMap := (keyMap st)(key \<mapsto> i),
              cache := (cache st)(i \<mapsto> layout) \<rparr>))"

definition deserializeLayout ::
  "cache_state \<Rightarrow> string \<Rightarrow> error + (ref option \<times> cache_state)" where
  "deserializeLayout st key =
     (case keyMap st key of
        Some i \<Rightarrow> Inr (cache st i, st)
      | None \<Rightarrow>
          (case deserializeFromString key of
             Inl e \<Rightarrow> Inl e
           | Inr obj \<Rightarrow>
               (let (layout, st1) = alloc st obj;
                    (r, st2) = addLayoutToCache st1 layout key
                in Inr (Some r, st2))))"

text \<open>The defensive copy of \<open>createLayout\<close>: the fields it names, and no others.\<close>

definition copyAttrib :: "GPUVertexAttribute \<Rightarrow> GPUVertexAttribute" where
  "copyAttrib attrib =
     \<lparr> shaderLocation = shaderLocation attrib, format = format attrib, offset = offset attrib \<rparr>"

definition copyBuffers :: "'a GPUVertexBufferLayout_scheme list \<Rightarrow> GPUVertexBufferLayout list" where
  "copyBuffers attribBuffers =
     map (\<lambda>buffer. \<lparr> arrayStride = arrayStride buffer, stepMode = None,
                     attributes = map copyAttrib (attributes buffer) \<rparr>) attribBuffers"

definition createLayout ::
  "cache_state \<Rightarrow> 'a GPUVertexBufferLayout_scheme list \<Rightarrow> GPUPrimitiveTopology \<Rightarrow> GPUIndexFormat option
     \<Rightarrow> ref option \<times> cache_state" where
  "createLayout st attribBuffers topo indexFormat =
     (let obj = GeometryLayout_new (copyBuffers attribBuffers) (Some topo)
                  (case indexFormat of None \<Rightarrow> index_uint32 | Some f \<Rightarrow> f);
          (key, obj') = serializeToString obj;
          (layout, st1) = alloc st obj'
      in case keyMap st1 key of
           Some i \<Rightarrow> (cache st1 i, st1)
         | None \<Rightarrow> (let (r, st2) = addLayoutToCache st1 layout key in (Some r, st2)))"

text \<open>
  A session is a sequence of calls on one cache.  A call that throws leaves the state as
  it was.
\<close>

datatype cache_op =
    CreateLayout "GPUVertexBufferLayout list" GPUPrimitiveTopology "GPUIndexFormat option"
  | DeserializeLayout string

fun step :: "cache_op \<Rightarrow> cache_state \<Rightarrow> ref option \<times> cache_state" where
  "step (CreateLayout attribBuffers topo indexFormat) st = createLayout st attribBuffers topo indexFormat"
| "step (DeserializeLayout key) st =
     (case deserializeLayout st key of Inl e \<Rightarrow> (None, st) | Inr res \<Rightarrow> res)"

fun run :: "cache_op list \<Rightarrow> cache_state \<Rightarrow> cache_state" where
  "run [] st = st"
| "run (c # cs) st = run cs (snd (step c st))"

text \<open>The id carried by the object a call returned.\<close>

definition id_of :: "cache_state \<Rightarrow> ref option \<Rightarrow> nat option" where
  "id_of st r = (case r of None \<Rightarrow> None
                 | Some a \<Rightarrow> (case heap st a of None \<Rightarrow> None | Some obj \<Rightarrow> layout_id obj))"

section \<open>NormalizeBufferLayout\<close>

text \<open>
  An entry of the input (and of the output) has a buffer handle, an offset and the stride
  and attributes of a vertex buffer layout.  The handle is a \<open>Map\<close> key and can be any
  value.  The input's \<open>bufferOffset\<close> may be missing; the output's never is.
\<close>

record 'b BufferLayout = GPUVertexBufferLayout +
  buffer :: 'b
  bufferOffset :: "nat option"

text \<open>
  A JavaScript \<open>Map\<close> iterates in insertion order: it is an association list, a new key
  goes to the end.  \<open>getOrCreate k d f m\<close> reads the entry of \<open>k\<close>, creating it with
  \<open>d\<close> when there is none, and updates the value in place with \<open>f\<close>.
\<close>

fun getOrCreate :: "'k \<Rightarrow> 'v \<Rightarrow> ('v \<Rightarrow> 'v) \<Rightarrow> ('k \<times> 'v) list \<Rightarrow> ('k \<times> 'v) list" where
  "getOrCreate k d f [] = [(k, f d)]"
| "getOrCreate k d f ((k', v) # m) =
     (if k' = k then (k', f v) # m else (k', v) # getOrCreate k d f m)"

text \<open>The first pass: attributes by buffer, then by stride, with absolute offsets.\<close>

definition absoluteAttribs :: "'b BufferLayout \<Rightarrow> GPUVertexAttribute list" where
  "absoluteAttribs layout =
     map (\<lambda>attrib. \<lparr> shaderLocation = shaderLocation attrib, format = format attrib,
                     offset = offset attrib + (case bufferOffset layout of None \<Rightarrow> 0 | Some n \<Rightarrow> n) \<rparr>)
         (attributes layout)"

fun groupByBufferStride ::
  "'b BufferLayout list \<Rightarrow> ('b \<times> (nat \<times> GPUVertexAttribute list) list) list
     \<Rightarrow> ('b \<times> (nat \<times> GPUVertexAttribute list) list) list" where
  "groupByBufferStride [] bufferStrideAttribs = bufferStrideAttribs"
| "groupByBufferStride (layout # rest) bufferStrideAttribs =
     (if length (attributes layout) = 0 then groupByBufferStride rest bufferStrideAttribs
      else groupByBufferStride rest
             (getOrCreate (buffer layout) []
                (getOrCreate (arrayStride layout) []
                   (\<lambda>strideAttribs. strideAttribs @ absoluteAttribs layout))
                bufferStrideAttribs))"

text \<open>\<open>Array.prototype.sort\<close> is stable, and so is \<open>sort_key\<close>.\<close>

definition pushLayout :: "'b \<Rightarrow> nat \<Rightarrow> nat \<Rightarrow> GPUVertexAttribute list \<Rightarrow> 'b BufferLayout" where
  "pushLayout buf bufOffset stride attrs =
     \<lparr> arrayStride = stride, stepMode = None, attributes = sort_key shaderLocation attrs,
       buffer = buf, bufferOffset = Some bufOffset \<rparr>"

text \<open>
  The loop over the attributes of one buffer/stride group, with its two variables
  \<open>minAttribOffset\<close> and \<open>attributes\<close>; the result is what it pushes, the last push
  being the one after the loop.  The attributes arrive sorted by offset, so the
  subtraction is never negative.
\<close>

fun splitAttribs ::
  "'b \<Rightarrow> nat \<Rightarrow> nat \<Rightarrow> GPUVertexAttribute list \<Rightarrow> GPUVertexAttribute list \<Rightarrow> 'b BufferLayout list" where
  "splitAttribs buf stride minAttribOffset attrs [] = [pushLayout buf minAttribOffset stride attrs]"
| "splitAttribs buf stride minAttribOffset attrs (attrib # attribs) =
     (let adjustedOffset = offset attrib - minAttribOffset
      in if adjustedOffset \<ge> stride
         then pushLayout buf minAttribOffset stride attrs #
              splitAttribs buf stride (offset attrib)
                [\<lparr> shaderLocation = shaderLocation attrib, format = format attrib, offset = 0 \<rparr>] attribs
         else splitAttribs buf stride minAttribOffset
                (attrs @ [\<lparr> shaderLocation = shaderLocation attrib, format = format attrib,
                            offset = adjustedOffset \<rparr>]) attribs)"

text \<open>\<open>attribs[0].offset\<close> on an empty array would throw.\<close>

definition normalizeGroup :: "'b \<Rightarrow> nat \<Rightarrow> GPUVertexAttribute list \<Rightarrow> error + 'b BufferLayout list" where
  "normalizeGroup buf stride attribs0 =
     (let attribs = sort_key offset attribs0
      in case attribs of
           [] \<Rightarrow> Inl TypeError
         | first # _ \<Rightarrow> Inr (splitAttribs buf stride (offset first) [] attribs))"

fun normalizeStrides :: "'b \<Rightarrow> (nat \<times> GPUVertexAttribute list) list \<Rightarrow> error + 'b BufferLayout list" where
  "normalizeStrides buf [] = Inr []"
| "normalizeStrides buf ((stride, attribs) # rest) =
     (case normalizeGroup buf stride attribs of
        Inl e \<Rightarrow> Inl e
      | Inr ls \<Rightarrow> (case normalizeStrides buf rest of Inl e \<Rightarrow> Inl e | Inr ls' \<Rightarrow> Inr (ls @ ls')))"

fun normalizeBuffers ::
  "('b \<times> (nat \<times> GPUVertexAttribute list) list) list \<Rightarrow> error + 'b BufferLayout list" where
  "normalizeBuffers [] = Inr []"
| "normalizeBuffers ((buf, strideAttribs) # rest) =
     (case normalizeStrides buf strideAttribs of
        Inl e \<Rightarrow> Inl e
      | Inr ls \<Rightarrow> (case normalizeBuffers rest of Inl e \<Rightarrow> Inl e | Inr ls' \<Rightarrow> Inr (ls @ ls')))"

text \<open>
  The final sort compares \<open>a.attributes[0].shaderLocation\<close>.  With two or more
  elements every element is compared at least once, and reading \<open>shaderLocation\<close> of the
  missing first attribute of an empty list throws.
\<close>

definition sortLayouts :: "'b BufferLayout list \<Rightarrow> error + 'b BufferLayout list" where
  "sortLayouts normalizedLayouts =
     (if length normalizedLayouts \<ge> 2 \<and> list_ex (\<lambda>l. attributes l = []) normalizedLayouts
      then Inl TypeError
      else Inr (sort_key (\<lambda>l. shaderLocation (hd (attributes l))) normalizedLayouts))"

definition NormalizeBufferLayout :: "'b BufferLayout list \<Rightarrow> error + 'b BufferLayout list" where
  "NormalizeBufferLayout bufferLayouts =
     (case normalizeBuffers (groupByBufferStride bufferLayouts []) of
        Inl e \<Rightarrow> Inl e
      | Inr normalizedLayouts \<Rightarrow> sortLayouts normalizedLayouts)"

section \<open>buildGeometry (src/common/geometry.js)\<close>

datatype AttribName = position | normal | tangent | texcoord0 | texcoord1 | color | joints | weights

definition AttribNames :: "AttribName list" where
  "AttribNames = [position, normal, tangent, texcoord0, texcoord1, color, joints, weights]"

fun AttribLocation :: "AttribName \<Rightarrow> nat" where
  "AttribLocation position = 0"
| "AttribLocation normal = 1"
| "AttribLocation tangent = 2"
| "AttribLocation texcoord0 = 3"
| "AttribLocation texcoord1 = 4"
| "AttribLocation color = 5"
| "AttribLocation joints = 6"
| "AttribLocation weights = 7"

fun DefaultAttribFormat :: "AttribName \<Rightarrow> GPUVertexFormat" where
  "DefaultAttribFormat position = float32x3"
| "DefaultAttribFormat normal = float32x3"
| "DefaultAttribFormat tangent = float32x3"
| "DefaultAttribFormat texcoord0 = float32x2"
| "DefaultAttribFormat texcoord1 = float32x2"
| "DefaultAttribFormat color = float32x4"
| "DefaultAttribFormat joints = uint16x4"
| "DefaultAttribFormat weights = float32x4"

fun DefaultStride :: "GPUVertexFormat \<Rightarrow> nat" where
  "DefaultStride uint8x2 = 2"
| "DefaultStride uint8x4 = 4"
| "DefaultStride sint8x2 = 2"
| "DefaultStride sint8x4 = 4"
| "DefaultStride unorm8x2 = 2"
| "DefaultStride unorm8x4 = 4"
| "DefaultStride snorm8x2 = 2"
| "DefaultStride snorm8x4 = 4"
| "DefaultStride uint16x2 = 4"
| "DefaultStride uint16x4 = 8"
| "DefaultStride sint16x2 = 4"
| "DefaultStride sint16x4 = 8"
| "DefaultStride unorm16x2 = 4"
| "DefaultStride unorm16x4 = 8"
| "DefaultStride snorm16x2 = 4"
| "DefaultStride snorm16x4 = 8"
| "DefaultStride float16x2 = 4"
| "DefaultStride float16x4 = 8"
| "DefaultStride float32 = 4"
| "DefaultStride float32x2 = 8"
| "DefaultStride float32x3 = 12"
| "DefaultStride float32x4 = 16"
| "DefaultStride uint32 = 4"
| "DefaultStride uint32x2 = 8"
| "DefaultStride uint32x3 = 12"
| "DefaultStride uint32x4 = 16"
| "DefaultStride sint32 = 4"
| "DefaultStride sint32x2 = 8"
| "DefaultStride sint32x3 = 12"
| "DefaultStride sint32x4 = 16"

text \<open>
  Attribute values are objects: a typed-array view or an \<open>ArrayBuffer\<close> of some byte
  length, or a plain array of some length.  \<open>objectId\<close> is the object's identity, the key
  of the \<open>arraySource\<close> map; only the sizes of the contents matter below.
\<close>

datatype ValuesKind = TypedArray nat | ArrayBuffer nat | PlainArray nat

record GeometryAttributeValues =
  objectId :: nat
  kind :: ValuesKind

text \<open>An attribute is the values themselves or a descriptor \<open>{values, offset, stride, format}\<close>.\<close>

datatype GeometryAttribute =
    Values GeometryAttributeValues
  | AttributeDescriptor GeometryAttributeValues "nat option" "nat option" "GPUVertexFormat option"

datatype IndexArray = Uint16Array "16 word list" | Uint32Array "32 word list" | NumberArray "int list"

text \<open>
  JavaScript numbers, as far as \<open>maxVertices\<close> needs them.  A finite number is a
  double, kept as the rational it denotes.  The operator \<open>/\<close> divides doubles: the result is
  the double nearest to the exact quotient, a tie going to the even significand, and
  division by zero gives \<open>Infinity\<close> or \<open>NaN\<close>.  The operands here are a byte length and
  a stride, integers below \<open>2^53\<close>, so a quotient other than zero lies between \<open>2^-53\<close> and
  \<open>2^53\<close>, where doubles neither overflow nor are subnormal: \<open>binade\<close> finds the exponent
  \<open>e\<close> with \<open>2^e \<le> q < 2^(e+1)\<close>, and \<open>q\<close> is rounded to a multiple of \<open>2^(e-52)\<close>.
\<close>

datatype number = Num rat | Infinity | NaN

definition roundHalfEven :: "rat \<Rightarrow> int" where
  "roundHalfEven x =
     (let f = \<lfloor>x\<rfloor>; d = x - of_int f
      in if d < 1 / 2 then f else if 1 / 2 < d then f + 1 else if even f then f else f + 1)"

fun binade :: "nat \<Rightarrow> rat \<Rightarrow> int \<Rightarrow> int" where
  "binade fuel q e =
     (if fuel = 0 then e
      else if q < 1 then binade (fuel - 1) (q * 2) (e - 1)
      else if 2 \<le> q then binade (fuel - 1) (q / 2) (e + 1)
      else e)"

declare binade.simps [simp del]

definition ulp :: "int \<Rightarrow> rat" where
  "ulp e = (if 52 \<le> e then 2 ^ nat (e - 52) else 1 / 2 ^ nat (52 - e))"

definition toDouble :: "rat \<Rightarrow> rat" where
  "toDouble q =
     (if q = 0 then 0
      else (let u = ulp (binade 2200 q 0) in of_int (roundHalfEven (q / u)) * u))"

definition js_div :: "nat \<Rightarrow> nat \<Rightarrow> number" where
  "js_div a b =
     (if b = 0 then (if a = 0 then NaN else Infinity)
      else Num (toDouble (of_nat a / of_nat b)))"

fun Math_min :: "number \<Rightarrow> number \<Rightarrow> number" where
  "Math_min NaN y = NaN"
| "Math_min x NaN = NaN"
| "Math_min Infinity y = y"
| "Math_min x Infinity = x"
| "Math_min (Num a) (Num b) = Num (min a b)"

definition MAX_SAFE_INTEGER :: number where
  "MAX_SAFE_INTEGER = Num (2 ^ 53 - 1)"

record GeometryDescriptor =
  attrib :: "AttribName \<Rightarrow> GeometryAttribute option"
  drawCount :: "number option"
  indices :: "IndexArray option"
  desc_topology :: "GPUPrimitiveTopology option"

record Source =
  source_bufferOffset :: nat
  source_size :: nat

text \<open>
  \<open>attrib.values ?? attrib\<close>.  A typed array and a plain array have a \<open>values\<close>
  property of their own, the iterator method of their prototype, so for them the result
  is that function (\<open>None\<close> here), which the type tests below reject.
\<close>

fun resolveValues :: "GeometryAttribute \<Rightarrow> GeometryAttributeValues option" where
  "resolveValues (AttributeDescriptor v off stride fmt) = Some v"
| "resolveValues (Values v) = (case kind v of ArrayBuffer n \<Rightarrow> Some v | _ \<Rightarrow> None)"

fun attribFormat :: "AttribName \<Rightarrow> GeometryAttribute \<Rightarrow> GPUVertexFormat" where
  "attribFormat attribName (AttributeDescriptor v off stride fmt) =
     (case fmt of Some f \<Rightarrow> f | None \<Rightarrow> DefaultAttribFormat attribName)"
| "attribFormat attribName (Values v) = DefaultAttribFormat attribName"

fun attribStride :: "AttribName \<Rightarrow> GeometryAttribute \<Rightarrow> nat" where
  "attribStride attribName (AttributeDescriptor v off stride fmt) =
     (case stride of Some n \<Rightarrow> n
      | None \<Rightarrow> DefaultStride (attribFormat attribName (AttributeDescriptor v off stride fmt)))"
| "attribStride attribName (Values v) = DefaultStride (DefaultAttribFormat attribName)"

fun attribOffset :: "GeometryAttribute \<Rightarrow> nat" where
  "attribOffset (AttributeDescriptor v off stride fmt) = (case off of Some n \<Rightarrow> n | None \<Rightarrow> 0)"
| "attribOffset (Values v) = 0"

fun byteLength :: "ValuesKind \<Rightarrow> nat" where
  "byteLength (TypedArray n) = n"
| "byteLength (ArrayBuffer n) = n"
| "byteLength (PlainArray n) = 4 * n"

text \<open>The variables of the first loop of \<open>buildGeometry\<close>.\<close>

record Intake =
  vertexBufferLayouts :: "nat BufferLayout list"
  maxVertices :: number
  arraySource :: "(nat \<times> Source) list"
  requiredBufferSize :: nat

definition intake0 :: Intake where
  "intake0 = \<lparr> vertexBufferLayouts = [], maxVertices = MAX_SAFE_INTEGER, arraySource = [],
               requiredBufferSize = 0 \<rparr>"

fun AttribKey :: "AttribName \<Rightarrow> string" where
  "AttribKey position = ''position''"
| "AttribKey normal = ''normal''"
| "AttribKey tangent = ''tangent''"
| "AttribKey texcoord0 = ''texcoord0''"
| "AttribKey texcoord1 = ''texcoord1''"
| "AttribKey color = ''color''"
| "AttribKey joints = ''joints''"
| "AttribKey weights = ''weights''"

definition intakeAttrib :: "AttribName \<Rightarrow> GeometryAttribute \<Rightarrow> Intake \<Rightarrow> error + Intake" where
  "intakeAttrib attribName a s =
     (case resolveValues a of
        None \<Rightarrow> Inl (Error (''Unknown values type in attribute '' @ AttribKey attribName))
      | Some vals \<Rightarrow>
          (let fmt = attribFormat attribName a;
               stride = attribStride attribName a;
               off = attribOffset a;
               loc = AttribLocation attribName;
               (src, s1) =
                 (case map_of (arraySource s) (objectId vals) of
                    Some src \<Rightarrow> (src, s)
                  | None \<Rightarrow>
                      (let n = byteLength (kind vals);
                           src = \<lparr> source_bufferOffset = requiredBufferSize s, source_size = n \<rparr>
                       in (src,
                           s\<lparr> arraySource := arraySource s @ [(objectId vals, src)],
                              requiredBufferSize := requiredBufferSize s + ((n + 3) div 4) * 4,
                              maxVertices := Math_min (maxVertices s) (js_div n stride) \<rparr>)))
           in Inr (s1\<lparr> vertexBufferLayouts := vertexBufferLayouts s1 @
                        [\<lparr> arrayStride = stride, stepMode = None,
                           attributes = [\<lparr> shaderLocation = loc, format = Some fmt,
                                           offset = off + source_bufferOffset src \<rparr>],
                           buffer = objectId vals, bufferOffset = None \<rparr>] \<rparr>)))"

fun intakeLoop :: "AttribName list \<Rightarrow> GeometryDescriptor \<Rightarrow> Intake \<Rightarrow> error + Intake" where
  "intakeLoop [] desc s = Inr s"
| "intakeLoop (attribName # names) desc s =
     (case attrib desc attribName of
        None \<Rightarrow> intakeLoop names desc s
      | Some a \<Rightarrow>
          (case intakeAttrib attribName a s of
             Inl e \<Rightarrow> Inl e
           | Inr s' \<Rightarrow> intakeLoop names desc s'))"

text \<open>
  The result.  The GPU buffers are the device's; the model keeps what the code writes
  into the bindings, and for the index buffer the array that is copied into it.
\<close>

record VertexBinding =
  vb_offset :: "nat option"
  vb_size :: "nat option"

record IndexBinding =
  ib_format :: GPUIndexFormat
  ib_contents :: IndexArray
  ib_offset :: nat
  ib_size :: nat

record Geometry =
  layout :: "ref option"
  vertexBindings :: "VertexBinding list"
  indexBinding :: "IndexBinding option"
  geometry_drawCount :: number

fun indexLength :: "IndexArray \<Rightarrow> nat" where
  "indexLength (Uint16Array xs) = length xs"
| "indexLength (Uint32Array xs) = length xs"
| "indexLength (NumberArray xs) = length xs"

fun indexByteLength :: "IndexArray \<Rightarrow> nat" where
  "indexByteLength (Uint16Array xs) = 2 * length xs"
| "indexByteLength (Uint32Array xs) = 4 * length xs"
| "indexByteLength (NumberArray xs) = 0"

text \<open>\<open>Array.isArray(desc.indices) ? new Uint32Array(desc.indices) : desc.indices\<close>\<close>

fun normalizeIndices :: "IndexArray \<Rightarrow> IndexArray" where
  "normalizeIndices (NumberArray xs) = Uint32Array (map word_of_int xs)"
| "normalizeIndices a = a"

fun isUint16Array :: "IndexArray option \<Rightarrow> bool" where
  "isUint16Array (Some (Uint16Array xs)) = True"
| "isUint16Array a = False"

definition buildGeometry ::
  "cache_state \<Rightarrow> GeometryDescriptor \<Rightarrow> error + (Geometry \<times> cache_state)" where
  "buildGeometry layoutCache desc =
     (case intakeLoop AttribNames desc intake0 of
        Inl e \<Rightarrow> Inl e
      | Inr s \<Rightarrow>
          if requiredBufferSize s = 0 then Inl (Error ''No vertex data provided'')
          else
            (case NormalizeBufferLayout (vertexBufferLayouts s) of
               Inl e \<Rightarrow> Inl e
             | Inr bufferLayouts \<Rightarrow>
                 (let bindings = map (\<lambda>l. \<lparr> vb_offset = bufferOffset l,
                                             vb_size = map_option source_size (map_of (arraySource s) (buffer l)) \<rparr>)
                                     bufferLayouts;
                      indexArray = map_option normalizeIndices (indices desc);
                      indexFormat = (if isUint16Array indexArray then index_uint16 else index_uint32);
                      (lay, layoutCache') =
                         createLayout layoutCache bufferLayouts
                           (case desc_topology desc of Some t \<Rightarrow> t | None \<Rightarrow> triangle_list)
                           (Some indexFormat);
                      ib = map_option (\<lambda>a. \<lparr> ib_format = indexFormat, ib_contents = a, ib_offset = 0,
                                               ib_size = indexByteLength a \<rparr>) indexArray;
                      count = (case drawCount desc of
                                 Some c \<Rightarrow> c
                               | None \<Rightarrow> (case indexArray of
                                            Some a \<Rightarrow> Num (of_nat (indexLength a))
                                          | None \<Rightarrow> maxVertices s))
                  in Inr (\<lparr> layout = lay, vertexBindings = bindings, indexBinding = ib,
                            geometry_drawCount = count \<rparr>, layoutCache'))))"

section \<open>Notions used in the properties\<close>

text \<open>
  A layout within every bit budget whose stride needs more than eight bits.
\<close>

definition layout_stride_256 :: GeometryLayout where
  "layout_stride_256 =
     GeometryLayout_new
       [\<lparr> arrayStride = 256, stepMode = Some step_vertex,
          attributes = [\<lparr> shaderLocation = 0, format = Some float32x3, offset = 0 \<rparr>] \<rparr>]
       (Some triangle_list) index_uint32"

text \<open>
  The packing as claim C3 is amended to word it, written with natural numbers and no
  machine arithmetic.  \<open>storedWord n\<close> is the two bytes, low byte first, of \<open>n mod 2^16\<close>;
  an attribute is the word of \<open>offset + 4096 * shaderLocation\<close> and the format byte; a
  buffer is the word of \<open>attribute count + 16 * arrayStride + step-mode bit\<close> and its
  attributes; a layout is the topology byte and its buffers.  \<open>stride_2048\<close> is a layout
  with a stride, an offset and a shader location beyond their bit budgets.
\<close>

definition storedWord :: "nat \<Rightarrow> byte list" where
  "storedWord n = [of_nat (n mod 65536 mod 256), of_nat (n mod 65536 div 256)]"

definition packedAttrib :: "GPUVertexAttribute \<Rightarrow> byte list" where
  "packedAttrib a =
     storedWord (offset a + 4096 * shaderLocation a)
     @ [case format a of None \<Rightarrow> 0 | Some f \<Rightarrow> of_nat (FormatId f)]"

definition packedBuffer :: "GPUVertexBufferLayout \<Rightarrow> byte list" where
  "packedBuffer b =
     storedWord (length (attributes b) + 16 * arrayStride b
                 + (if stepMode b = Some step_instance then 32768 else 0))
     @ concat (map packedAttrib (attributes b))"

definition packedLayout :: "GeometryLayout \<Rightarrow> byte list" where
  "packedLayout l =
     (case topology l of
        None \<Rightarrow> 0
      | Some t \<Rightarrow> of_nat (TopologyId t
                    + (case stripIndexFormat l of None \<Rightarrow> 0 | Some f \<Rightarrow> StripIndexFormatId f)))
     # concat (map packedBuffer (buffers l))"

definition stride_2048 :: GeometryLayout where
  "stride_2048 = GeometryLayout_new
          [\<lparr> arrayStride = 2048, stepMode = Some step_vertex,
             attributes = [\<lparr> shaderLocation = 17, format = Some float32x3, offset = 4100 \<rparr>] \<rparr>]
          (Some triangle_list) index_uint32"

text \<open>
  A session is observed through the ids of the objects its calls return: \<open>trace\<close>
  lists them call by call (a call that throws contributes nothing), and \<open>first_seen\<close>
  keeps each element of a list at its first appearance.
\<close>

fun first_seen :: "'a list \<Rightarrow> 'a list" where
  "first_seen [] = []"
| "first_seen (x # xs) = x # first_seen (removeAll x xs)"

fun trace :: "cache_op list \<Rightarrow> cache_state \<Rightarrow> nat list" where
  "trace [] st = []"
| "trace (c # cs) st =
     (let (r, st') = step c st
      in (case id_of st' r of None \<Rightarrow> [] | Some i \<Rightarrow> [i]) @ trace cs st')"

text \<open>
  The invariant of a cache: every key leads to a registered object that carries the key's
  id and has the key as its cached string; every registered id is between 1 and \<open>nextId\<close>
  and belongs to a key; no id below \<open>nextId\<close> is missing.  \<open>extends\<close> says that a
  later state keeps every key, id and registered object of an earlier one.  \<open>layoutKey\<close>
  is the key that \<open>createLayout\<close> computes for its arguments.
\<close>

definition cache_inv :: "cache_state \<Rightarrow> bool" where
  "cache_inv st \<longleftrightarrow>
     1 \<le> nextId st
   \<and> (\<forall>k i. keyMap st k = Some i \<longrightarrow>
         (\<exists>r obj. cache st i = Some r \<and> heap st r = Some obj \<and> layout_id obj = Some i
                  \<and> serializedString obj = Some k \<and> k \<noteq> []))
   \<and> (\<forall>i r. cache st i = Some r \<longrightarrow>
         1 \<le> i \<and> i < nextId st \<and> r < nextRef st \<and> (\<exists>k. keyMap st k = Some i))
   \<and> (\<forall>i. 1 \<le> i \<and> i < nextId st \<longrightarrow> cache st i \<noteq> None)"

definition extends :: "cache_state \<Rightarrow> cache_state \<Rightarrow> bool" where
  "extends st st' \<longleftrightarrow>
     nextId st \<le> nextId st'
   \<and> (\<forall>k i. keyMap st k = Some i \<longrightarrow> keyMap st' k = Some i)
   \<and> (\<forall>i r. cache st i = Some r \<longrightarrow> cache st' i = Some r \<and> heap st' r = heap st r)"

definition layoutKey ::
  "'a GPUVertexBufferLayout_scheme list \<Rightarrow> GPUPrimitiveTopology \<Rightarrow> GPUIndexFormat option \<Rightarrow> string" where
  "layoutKey attribBuffers topo indexFormat =
     fst (serializeToString (GeometryLayout_new (copyBuffers attribBuffers) (Some topo)
            (case indexFormat of None \<Rightarrow> index_uint32 | Some f \<Rightarrow> f)))"

text \<open>
  The first byte of a key decides topology and strip index format of the object
  registered under it: \<open>header_ok\<close> says that the object has the topology and format
  that the decoder reads from that byte.
\<close>

definition header_ok :: "string \<Rightarrow> GeometryLayout \<Rightarrow> bool" where
  "header_ok k obj \<longleftrightarrow>
     (\<exists>b bs l. hexBytes k = b # bs \<and> decodeView [b] = Inr l
        \<and> topology obj = topology l \<and> stripIndexFormat obj = stripIndexFormat l)"

definition hdr_inv :: "cache_state \<Rightarrow> bool" where
  "hdr_inv st \<longleftrightarrow>
     (\<forall>k i r obj. keyMap st k = Some i \<longrightarrow> cache st i = Some r \<longrightarrow> heap st r = Some obj
        \<longrightarrow> header_ok k obj)"

definition stripFormatOf :: "GPUPrimitiveTopology \<Rightarrow> GPUIndexFormat \<Rightarrow> GPUIndexFormat option" where
  "stripFormatOf topo f = (if topo = triangle_strip \<or> topo = line_strip then Some f else None)"

text \<open>
  Inputs of the cache used as examples.
\<close>

definition two_keys :: "cache_op list" where
  "two_keys = [CreateLayout ([] :: GPUVertexBufferLayout list) triangle_list None,
               CreateLayout [] point_list None,
               CreateLayout [] triangle_list None]"

definition instanced_buffer :: "GPUVertexBufferLayout list" where
  "instanced_buffer = [\<lparr> arrayStride = 12, stepMode = Some step_instance,
       attributes = [\<lparr> shaderLocation = 0, format = Some float32x3, offset = 0 \<rparr>] \<rparr>]"

definition plain_buffer :: "GPUVertexBufferLayout list" where
  "plain_buffer = [\<lparr> arrayStride = 12, stepMode = None,
       attributes = [\<lparr> shaderLocation = 0, format = Some float32x3, offset = 0 \<rparr>] \<rparr>]"

text \<open>
  A session that registers one layout under a key that is not the encoding of any layout
  (\<open>0c\<close>: a list topology with the strip-format bit set), and then creates the layout
  that the key decodes to.
\<close>

definition noncanonical_key :: "cache_op list" where
  "noncanonical_key = [DeserializeLayout ''0c'', CreateLayout [] triangle_list None]"

text \<open>
  For the normalizer: whether a list of bindings has one without attributes, whether
  every group of the first pass has attributes, and the strides of the groups;
  \<open>rebase m\<close> takes an attribute's offset relative to \<open>m\<close>.
\<close>

definition has_empty :: "'b BufferLayout list \<Rightarrow> bool" where
  "has_empty ls = list_ex (\<lambda>l. attributes l = []) ls"

definition groups_nonempty :: "('b \<times> (nat \<times> GPUVertexAttribute list) list) list \<Rightarrow> bool" where
  "groups_nonempty m \<longleftrightarrow> (\<forall>(b, sm)\<in>set m. \<forall>(s, as)\<in>set sm. as \<noteq> [])"

definition group_strides :: "('b \<times> (nat \<times> GPUVertexAttribute list) list) list \<Rightarrow> nat set" where
  "group_strides m = (\<Union>(b, sm)\<in>set m. fst ` set sm)"

definition rebase :: "nat \<Rightarrow> GPUVertexAttribute \<Rightarrow> GPUVertexAttribute" where
  "rebase m a = \<lparr> shaderLocation = shaderLocation a, format = format a, offset = offset a - m \<rparr>"

text \<open>
  The grouping and the scan as claim C6 words them.  \<open>windows s as\<close> cuts a list of
  attributes, sorted by offset, into bindings: a binding starts at an attribute, whose
  offset is its base, and takes the attributes that follow below base plus stride; the
  first attribute at or beyond that starts the next binding.  \<open>groupAttribs h s xs\<close> are
  the attributes, with absolute offsets, of the entries on handle \<open>h\<close> with stride \<open>s\<close>.
  \<open>bindingsOf h s as\<close> are the bindings of a group: the windows of its attributes in
  offset order, each with its base as \<open>bufferOffset\<close>, the offsets relative to the base,
  and the attributes in the order of their shader locations.
\<close>

function windows :: "nat \<Rightarrow> GPUVertexAttribute list \<Rightarrow> (nat \<times> GPUVertexAttribute list) list" where
  "windows s [] = []"
| "windows s (a # as) =
     (offset a, a # takeWhile (\<lambda>x. offset x < offset a + s) as)
     # windows s (dropWhile (\<lambda>x. offset x < offset a + s) as)"
  by pat_completeness auto
termination
  by (relation "measure (\<lambda>(s, as). length as)") (auto simp: length_dropWhile_le le_imp_less_Suc)

definition groupAttribs :: "'b \<Rightarrow> nat \<Rightarrow> 'b BufferLayout list \<Rightarrow> GPUVertexAttribute list" where
  "groupAttribs h s xs =
     concat (map (\<lambda>l. map (\<lambda>a. a\<lparr>offset := offset a + (case bufferOffset l of None \<Rightarrow> 0 | Some n \<Rightarrow> n)\<rparr>)
                       (attributes l))
                 (filter (\<lambda>l. buffer l = h \<and> arrayStride l = s) xs))"

definition bindingsOf :: "'b \<Rightarrow> nat \<Rightarrow> GPUVertexAttribute list \<Rightarrow> 'b BufferLayout list" where
  "bindingsOf h s as =
     map (\<lambda>(m, w). \<lparr> arrayStride = s, stepMode = None,
                     attributes = sort_key shaderLocation (map (\<lambda>a. a\<lparr>offset := offset a - m\<rparr>) w),
                     buffer = h, bufferOffset = Some m \<rparr>)
         (windows s (sort_key offset as))"

text \<open>
  For the proofs: the attributes that the map of the first pass holds for a handle and a
  stride, and the invariant that no key occurs twice in it.
\<close>

definition groupOf ::
  "('b \<times> (nat \<times> GPUVertexAttribute list) list) list \<Rightarrow> 'b \<Rightarrow> nat \<Rightarrow> GPUVertexAttribute list" where
  "groupOf m h s =
     (case map_of m h of None \<Rightarrow> []
      | Some sm \<Rightarrow> (case map_of sm s of None \<Rightarrow> [] | Some as \<Rightarrow> as))"

definition keys_distinct :: "('b \<times> (nat \<times> GPUVertexAttribute list) list) list \<Rightarrow> bool" where
  "keys_distinct m \<longleftrightarrow> distinct (map fst m) \<and> (\<forall>p\<in>set m. distinct (map fst (snd p)))"

text \<open>
  Inputs of the normalizer used as examples.
\<close>

definition attribAt :: "nat \<Rightarrow> GPUVertexFormat \<Rightarrow> nat \<Rightarrow> GPUVertexAttribute" where
  "attribAt loc fmt off = \<lparr> shaderLocation = loc, format = Some fmt, offset = off \<rparr>"

definition bufferEntry :: "'b \<Rightarrow> nat \<Rightarrow> GPUVertexAttribute list \<Rightarrow> 'b BufferLayout" where
  "bufferEntry h stride attrs =
     \<lparr> arrayStride = stride, stepMode = None, attributes = attrs, buffer = h, bufferOffset = None \<rparr>"

definition two_handles :: "nat BufferLayout list" where
  "two_handles =
     [\<lparr> arrayStride = 16, stepMode = None,
        attributes = [\<lparr> shaderLocation = 5, format = Some float32x2, offset = 0 \<rparr>],
        buffer = 7, bufferOffset = None \<rparr>,
      \<lparr> arrayStride = 16, stepMode = None,
        attributes = [\<lparr> shaderLocation = 1, format = Some float32x2, offset = 8 \<rparr>],
        buffer = 7, bufferOffset = None \<rparr>,
      \<lparr> arrayStride = 16, stepMode = None,
        attributes = [\<lparr> shaderLocation = 3, format = Some float32x2, offset = 0 \<rparr>],
        buffer = 8, bufferOffset = None \<rparr>]"

definition two_handles_normalized :: "nat BufferLayout list" where
  "two_handles_normalized =
     [\<lparr> arrayStride = 16, stepMode = None,
        attributes = [\<lparr> shaderLocation = 1, format = Some float32x2, offset = 8 \<rparr>,
                      \<lparr> shaderLocation = 5, format = Some float32x2, offset = 0 \<rparr>],
        buffer = 7, bufferOffset = Some 0 \<rparr>,
      \<lparr> arrayStride = 16, stepMode = None,
        attributes = [\<lparr> shaderLocation = 3, format = Some float32x2, offset = 0 \<rparr>],
        buffer = 8, bufferOffset = Some 0 \<rparr>]"

definition interleaved :: "nat BufferLayout list" where
  "interleaved = [bufferEntry 7 32 [attribAt 0 float32x3 0], bufferEntry 7 32 [attribAt 1 float32x3 12]]"

text \<open>
  Entries of three groups: two handles, two strides on one of them, an attribute beyond
  the stride, and an entry without attributes.
\<close>

definition three_groups :: "nat BufferLayout list" where
  "three_groups =
     [bufferEntry 7 16 [attribAt 5 float32x2 0],
      bufferEntry 8 16 [attribAt 3 float32x2 0],
      bufferEntry 7 16 [attribAt 1 float32x2 8, attribAt 2 float32x2 40],
      bufferEntry 7 32 [attribAt 0 float32x2 4],
      bufferEntry 9 16 []]"

definition three_groups_normalized :: "nat BufferLayout list" where
  "three_groups_normalized =
     [\<lparr> arrayStride = 32, stepMode = None, attributes = [attribAt 0 float32x2 0],
        buffer = 7, bufferOffset = Some 4 \<rparr>,
      \<lparr> arrayStride = 16, stepMode = None,
        attributes = [attribAt 1 float32x2 8, attribAt 5 float32x2 0],
        buffer = 7, bufferOffset = Some 0 \<rparr>,
      \<lparr> arrayStride = 16, stepMode = None, attributes = [attribAt 2 float32x2 0],
        buffer = 7, bufferOffset = Some 40 \<rparr>,
      \<lparr> arrayStride = 16, stepMode = None, attributes = [attribAt 3 float32x2 0],
        buffer = 8, bufferOffset = Some 0 \<rparr>]"

text \<open>
  For \<open>buildGeometry\<close>: the value sources of a descriptor in slot order, each with
  its object, its byte size and the stride of the attribute that uses it; the first use
  of every object; and the quotient of size by stride.
\<close>

definition sourceOf :: "GeometryDescriptor \<Rightarrow> AttribName \<Rightarrow> (nat \<times> nat \<times> nat) option" where
  "sourceOf desc n =
     (case attrib desc n of
        None \<Rightarrow> None
      | Some a \<Rightarrow> map_option (\<lambda>v. (objectId v, byteLength (kind v), attribStride n a))
                   (resolveValues a))"

definition sources :: "GeometryDescriptor \<Rightarrow> (nat \<times> nat \<times> nat) list" where
  "sources desc = List.map_filter (sourceOf desc) AttribNames"

fun firstUses :: "nat set \<Rightarrow> (nat \<times> 'a) list \<Rightarrow> (nat \<times> 'a) list" where
  "firstUses seen [] = []"
| "firstUses seen ((h, x) # rest) =
     (if h \<in> seen then firstUses seen rest else (h, x) # firstUses (insert h seen) rest)"

definition quotient :: "nat \<times> nat \<times> nat \<Rightarrow> number" where
  "quotient src = (case src of (h, n, stride) \<Rightarrow> js_div n stride)"

text \<open>
  Descriptors used as examples: two attributes on one source with different strides, ten
  bytes with stride 3, an indexed triangle strip, and a triangle list with a plain array
  of indices.
\<close>

definition shared_source :: GeometryDescriptor where
  "shared_source =
     \<lparr> attrib = (\<lambda>n. None)
         (position := Some (AttributeDescriptor \<lparr> objectId = 0, kind = TypedArray 24 \<rparr>
                               None (Some 4) (Some float32)),
          normal := Some (AttributeDescriptor \<lparr> objectId = 0, kind = TypedArray 24 \<rparr>
                               None (Some 12) None)),
       drawCount = None, indices = None, desc_topology = None \<rparr>"

definition ten_by_three :: GeometryDescriptor where
  "ten_by_three =
     \<lparr> attrib = (\<lambda>n. None)
         (position := Some (AttributeDescriptor \<lparr> objectId = 0, kind = TypedArray 10 \<rparr>
                               None (Some 3) None)),
       drawCount = None, indices = None, desc_topology = None \<rparr>"

definition strip_indexed :: GeometryDescriptor where
  "strip_indexed =
     \<lparr> attrib = (\<lambda>n. None)
         (position := Some (AttributeDescriptor \<lparr> objectId = 0, kind = TypedArray 48 \<rparr>
                               None None None)),
       drawCount = None, indices = Some (Uint16Array [0, 1, 2, 3]),
       desc_topology = Some triangle_strip \<rparr>"

definition list_indexed :: GeometryDescriptor where
  "list_indexed =
     \<lparr> attrib = (\<lambda>n. None)
         (position := Some (AttributeDescriptor \<lparr> objectId = 0, kind = TypedArray 48 \<rparr>
                               None None None)),
       drawCount = None, indices = Some (NumberArray [0, 1, 2]),
       desc_topology = None \<rparr>"

section \<open>Properties of the codec\<close>

lemmas encode_defs = encodeLayout_def GeometryLayout_new_def encodeBuffer_def encodeAttrib_def
  setUint16_def setUint8_def shl_def ToInt32_def serializeToBuffer_def Let_def

lemmas decode_defs = deserializeFromBuffer_def DataView_new_def decodeView_def TopologyMask_def
  TopologyName_def getUint16_def decodeAttrib_def FormatName_def FormatNames_def StepModeName_def
  GeometryLayout_new_def StripIndexFormatName_def

lemma encode_stride_256: "fst (serializeToBuffer layout_stride_256) = [4, 1, 16, 0, 0, 20]"
  by (simp add: layout_stride_256_def encode_defs)

text \<open>
  Claim C1 (round trip): decoding the bytes of a layout within the bit budgets gives back
  its topology, strip index format, strides, step modes and attributes.  The decoder masks
  the stride with \<open>0x08FF\<close> where the 11-bit field needs \<open>0x07FF\<close>, so bits 8 to 10 of
  the stride are lost: the layout with one buffer of stride 256 decodes to stride 0.
\<close>

theorem decode_loses_stride_256:
  "deserializeFromBuffer (fst (serializeToBuffer layout_stride_256)) None None =
     Inr (GeometryLayout_new
            [\<lparr> arrayStride = 0, stepMode = Some step_vertex,
               attributes = [\<lparr> shaderLocation = 0, format = Some float32x3, offset = 0 \<rparr>] \<rparr>]
            (Some triangle_list) index_uint32)"
  by (simp add: encode_stride_256) (simp add: decode_defs)

text \<open>
  Claim C4 (canonical form): encoding the decoded encoding of a layout gives the encoding
  again.  Through \<open>deserializeFromBuffer\<close> it does not: the layout with stride 256
  encodes to \<open>04 01 10 00 00 14\<close>, and its decoding encodes to \<open>04 01 00 00 00 14\<close>.
\<close>

theorem reencode_differs_stride_256:
  "map_sum id (\<lambda>l. fst (serializeToBuffer l))
       (deserializeFromBuffer (fst (serializeToBuffer layout_stride_256)) None None)
     = Inr [4, 1, 0, 0, 0, 20]
   \<and> fst (serializeToBuffer layout_stride_256) = [4, 1, 16, 0, 0, 20]"
proof -
  have "deserializeFromBuffer [4, 1, 16, 0, 0, 20] None None =
     Inr (GeometryLayout_new
            [\<lparr> arrayStride = 0, stepMode = Some step_vertex,
               attributes = [\<lparr> shaderLocation = 0, format = Some float32x3, offset = 0 \<rparr>] \<rparr>]
            (Some triangle_list) index_uint32)"
    by (simp add: decode_defs)
  then show ?thesis
    by (simp add: encode_stride_256) (simp add: encode_defs)
qed

text \<open>
  Claim C3 (encoding fails on overflow), refuted: a stride of 2048 is encoded, and its
  bytes are those of stride 0 with step mode \<open>instance\<close>.
\<close>

theorem serializeToBuffer_wraps_stride_2048:
  "fst (serializeToBuffer (GeometryLayout_new
          [\<lparr> arrayStride = 2048, stepMode = Some step_vertex, attributes = [] \<rparr>]
          (Some triangle_list) index_uint32)) = [4, 0, 128]
   \<and> fst (serializeToBuffer (GeometryLayout_new
          [\<lparr> arrayStride = 0, stepMode = Some step_instance, attributes = [] \<rparr>]
          (Some triangle_list) index_uint32)) = [4, 0, 128]"
  by (simp add: encode_defs)

lemma ToInt32_mod: "ToInt32 y mod 65536 = y mod 65536"
proof -
  have "(65536::int) dvd 2 ^ 32" by simp
  then have "((y + 2 ^ 31) mod 2 ^ 32) mod 65536 = (y + 2 ^ 31) mod (65536::int)"
    by (rule mod_mod_cancel)
  then have "((y + 2 ^ 31) mod 2 ^ 32 - 2 ^ 31) mod 65536 = (y + 2 ^ 31 - 2 ^ 31) mod (65536::int)"
    by (metis mod_diff_left_eq)
  then show ?thesis by (simp add: ToInt32_def)
qed

lemma shl_mod: "shl x n mod 65536 = (x * 2 ^ n) mod 65536"
proof -
  have "shl x n mod 65536 = (ToInt32 x * 2 ^ n) mod 65536"
    by (simp only: shl_def ToInt32_mod)
  also have "\<dots> = (x * 2 ^ n) mod 65536"
    by (metis ToInt32_mod mod_mult_left_eq)
  finally show ?thesis .
qed

lemma unat_byte: "unat (word_of_int v :: byte) = nat (v mod 256)"
  by (simp add: unat_eq_nat_uint uint_word_of_int take_bit_eq_mod)

lemma getUint16_setUint16:
  "getUint16 (word_of_int v) (word_of_int ((v mod 65536) div 256)) = nat (v mod 65536)"
proof -
  define w where "w = v mod 65536"
  have w: "0 \<le> w" "w < 65536" by (simp_all add: w_def)
  have "(256::int) dvd 65536" by simp
  then have lo: "v mod 256 = w mod 256" unfolding w_def by (simp add: mod_mod_cancel)
  have hi: "(w div 256) mod 256 = w div 256" using w by simp
  have "getUint16 (word_of_int v) (word_of_int (w div 256)) = nat (w mod 256) + 256 * nat (w div 256)"
    by (simp only: getUint16_def unat_byte lo hi)
  also have "\<dots> = nat (w mod 256 + 256 * (w div 256))"
  proof -
    have "0 \<le> w mod 256" "0 \<le> w div 256" using w by simp_all
    then have "nat (w mod 256 + 256 * (w div 256)) = nat (w mod 256) + nat (256 * (w div 256))"
      by (intro nat_add_distrib) simp_all
    moreover have "nat (256 * (w div 256)) = 256 * nat (w div 256)"
      by (simp add: nat_mult_distrib)
    ultimately show ?thesis by (simp only:)
  qed
  also have "w mod 256 + 256 * (w div 256) = w" by (rule mod_mult_div_eq)
  finally show ?thesis by (simp add: w_def)
qed

lemma setUint16_read:
  "getUint16 ((setUint16 v @ rest) ! 0) ((setUint16 v @ rest) ! 1) = nat (v mod 65536)"
proof -
  have "(setUint16 v @ rest) ! 0 = word_of_int v"
    by (simp add: setUint16_def)
  moreover have "(setUint16 v @ rest) ! 1 = word_of_int ((v mod 65536) div 256)"
    by (simp add: setUint16_def)
  ultimately show ?thesis
    by (simp only: getUint16_setUint16)
qed

lemma length_encodeAttrib: "length (encodeAttrib a) = 3"
  by (simp add: encodeAttrib_def setUint16_def setUint8_def Let_def)

lemma length_concat_encodeAttrib: "length (concat (map encodeAttrib as)) = 3 * length as"
  by (induction as) (simp_all add: length_encodeAttrib)

lemma length_encodeBuffer: "length (encodeBuffer b) = 2 + 3 * length (attributes b)"
  by (simp add: encodeBuffer_def setUint16_def Let_def length_concat_encodeAttrib)

lemma length_concat_encodeBuffer:
  "length (concat (map encodeBuffer bs)) = 2 * length bs + 3 * sum_list (map (\<lambda>b. length (attributes b)) bs)"
  by (induction bs) (simp_all add: length_encodeBuffer)

lemma length_encodeLayout:
  "length (encodeLayout l) = 1 + 2 * length (buffers l) + 3 * sum_list (map (\<lambda>b. length (attributes b)) (buffers l))"
  by (simp add: encodeLayout_def setUint8_def Let_def length_concat_encodeBuffer)

lemma bufferData16_wraps:
  "getUint16 (encodeBuffer b ! 0) (encodeBuffer b ! 1) =
     (length (attributes b) + arrayStride b * 16
        + StepModeId (case stepMode b of None \<Rightarrow> step_vertex | Some m \<Rightarrow> m)) mod 65536"
proof -
  let ?s = "int (StepModeId (case stepMode b of None \<Rightarrow> step_vertex | Some m \<Rightarrow> m))"
  let ?v = "int (length (attributes b)) + shl (int (arrayStride b)) 4 + ?s"
  have "getUint16 (encodeBuffer b ! 0) (encodeBuffer b ! 1) = nat (?v mod 65536)"
    by (simp only: encodeBuffer_def Let_def setUint16_read)
  also have "?v mod 65536 = (int (length (attributes b)) + int (arrayStride b) * 2 ^ 4 + ?s) mod 65536"
    by (intro mod_add_cong refl shl_mod)
  also have "nat \<dots> = (length (attributes b) + arrayStride b * 16
        + StepModeId (case stepMode b of None \<Rightarrow> step_vertex | Some m \<Rightarrow> m)) mod 65536"
    by (simp add: nat_mod_distrib nat_add_distrib nat_mult_distrib)
  finally show ?thesis .
qed

lemma attribData16_wraps:
  "getUint16 (encodeAttrib a ! 0) (encodeAttrib a ! 1) = (offset a + shaderLocation a * 4096) mod 65536"
proof -
  let ?v = "int (offset a) + shl (int (shaderLocation a)) 12"
  have "getUint16 (encodeAttrib a ! 0) (encodeAttrib a ! 1) = nat (?v mod 65536)"
    by (simp only: encodeAttrib_def Let_def setUint16_read)
  also have "?v mod 65536 = (int (offset a) + int (shaderLocation a) * 2 ^ 12) mod 65536"
    by (intro mod_add_cong refl shl_mod)
  also have "nat \<dots> = (offset a + shaderLocation a * 4096) mod 65536"
    by (simp add: nat_mod_distrib nat_add_distrib nat_mult_distrib)
  finally show ?thesis .
qed

lemma setUint16_storedWord:
  assumes "v mod 65536 = int n mod 65536"
  shows "setUint16 v = storedWord n"
proof -
  have m: "v mod 65536 = int (n mod 65536)" using assms by (simp add: zmod_int)
  have "(256::int) dvd 65536" by simp
  then have "v mod 256 = (v mod 65536) mod 256" by (simp add: mod_mod_cancel)
  then have lo: "v mod 256 = int (n mod 65536 mod 256)" using m by (simp add: zmod_int)
  have "unat (word_of_int v :: byte) = unat (of_nat (n mod 65536 mod 256) :: byte)"
    by (simp add: unat_byte lo unat_of_nat)
  then have a: "(word_of_int v :: byte) = of_nat (n mod 65536 mod 256)"
    by (simp only: word_unat_eq_iff)
  have "(v mod 65536) div 256 = int (n mod 65536 div 256)" using m by (simp add: zdiv_int)
  then have b: "(word_of_int ((v mod 65536) div 256) :: byte) = of_nat (n mod 65536 div 256)"
    by simp
  show ?thesis by (simp only: setUint16_def storedWord_def a b)
qed

lemma encodeAttrib_packed: "encodeAttrib a = packedAttrib a"
proof -
  let ?v = "int (offset a) + shl (int (shaderLocation a)) 12"
  have "?v mod 65536 = (int (offset a) + int (shaderLocation a) * 2 ^ 12) mod 65536"
    by (intro mod_add_cong refl shl_mod)
  also have "\<dots> = int (offset a + 4096 * shaderLocation a) mod 65536" by (simp add: mult.commute)
  finally have "setUint16 ?v = storedWord (offset a + 4096 * shaderLocation a)"
    by (rule setUint16_storedWord)
  then show ?thesis
    by (simp add: encodeAttrib_def packedAttrib_def Let_def setUint8_def split: option.splits)
qed

lemma encodeBuffer_packed: "encodeBuffer b = packedBuffer b"
proof -
  let ?s = "int (StepModeId (case stepMode b of None \<Rightarrow> step_vertex | Some m \<Rightarrow> m))"
  let ?v = "int (length (attributes b)) + shl (int (arrayStride b)) 4 + ?s"
  let ?bit = "if stepMode b = Some step_instance then 32768 else (0::nat)"
  have s: "?s = int ?bit"
  proof (cases "stepMode b")
    case None
    then show ?thesis by simp
  next
    case (Some m)
    then show ?thesis by (cases m) simp_all
  qed
  have "?v mod 65536 = (int (length (attributes b)) + int (arrayStride b) * 2 ^ 4 + ?s) mod 65536"
    by (intro mod_add_cong refl shl_mod)
  also have "\<dots> = int (length (attributes b) + 16 * arrayStride b + ?bit) mod 65536"
    unfolding s by (simp add: mult.commute)
  finally have "setUint16 ?v = storedWord (length (attributes b) + 16 * arrayStride b + ?bit)"
    by (rule setUint16_storedWord)
  moreover have "map encodeAttrib (attributes b) = map packedAttrib (attributes b)"
    by (simp add: encodeAttrib_packed)
  ultimately show ?thesis
    by (simp only: encodeBuffer_def packedBuffer_def Let_def)
qed

lemma encodeLayout_packed: "encodeLayout l = packedLayout l"
proof -
  have "encodeBuffer = packedBuffer" by (rule ext) (rule encodeBuffer_packed)
  then show ?thesis
    by (simp add: encodeLayout_def packedLayout_def Let_def setUint8_def split: option.splits)
qed

lemma getUint16_storedWord: "getUint16 (storedWord n ! 0) (storedWord n ! 1) = n mod 65536"
proof -
  have "setUint16 (int n) = storedWord n" by (rule setUint16_storedWord) simp
  then have "getUint16 (storedWord n ! 0) (storedWord n ! 1)
      = getUint16 ((setUint16 (int n) @ []) ! 0) ((setUint16 (int n) @ []) ! 1)" by simp
  also have "\<dots> = nat (int n mod 65536)" by (simp only: setUint16_read)
  also have "\<dots> = n mod 65536" by (simp add: nat_mod_distrib)
  finally show ?thesis .
qed

text \<open>
  Claim C3 as amended: encoding never fails and validates nothing.  A layout that has a
  cached encoding returns it.  Any other layout, and so every layout that
  \<open>GeometryLayout_new\<close> makes, is encoded in \<open>1 + 2 * buffers + 3 * attributes\<close> bytes:
  the topology byte, then for every buffer the 16-bit word, low byte first, of the sum of
  attribute count, sixteen times the stride and the step-mode bit, taken modulo \<open>2^16\<close>,
  and for every attribute the word of the sum of offset and 4096 times the shader
  location, taken modulo \<open>2^16\<close>, and the format byte.
\<close>

theorem serializeToBuffer_packs_modulo:
  "(serializedBuffer this = None \<longrightarrow> fst (serializeToBuffer this) = packedLayout this)
   \<and> (serializedBuffer this = Some cached \<longrightarrow> fst (serializeToBuffer this) = cached)
   \<and> fst (serializeToBuffer (GeometryLayout_new bufs topo indexFormat))
       = packedLayout (GeometryLayout_new bufs topo indexFormat)
   \<and> length (packedLayout this)
       = 1 + 2 * length (buffers this) + 3 * sum_list (map (\<lambda>b. length (attributes b)) (buffers this))
   \<and> getUint16 (storedWord n ! 0) (storedWord n ! 1) = n mod 65536"
proof -
  have "length (packedLayout this)
       = 1 + 2 * length (buffers this) + 3 * sum_list (map (\<lambda>b. length (attributes b)) (buffers this))"
    using length_encodeLayout [of this] by (simp only: encodeLayout_packed)
  moreover have "serializedBuffer (GeometryLayout_new bufs topo indexFormat) = None"
    by (simp add: GeometryLayout_new_def)
  ultimately show ?thesis
    using getUint16_storedWord [of n]
    by (simp add: serializeToBuffer_def Let_def encodeLayout_packed)
qed

lemmas packed_defs = packedLayout_def packedBuffer_def packedAttrib_def storedWord_def
  GeometryLayout_new_def

theorem serializeToBuffer_packs_modulo_witness:
  "fst (serializeToBuffer stride_2048) = packedLayout stride_2048
   \<and> packedLayout stride_2048 = [4, 1, 128, 4, 32, 20]
   \<and> fst (serializeToBuffer (stride_2048\<lparr>serializedBuffer := Some [4, 0, 0]\<rparr>)) = [4, 0, 0]"
proof -
  have n: "serializedBuffer stride_2048 = None" by (simp add: stride_2048_def GeometryLayout_new_def)
  have s: "serializedBuffer (stride_2048\<lparr>serializedBuffer := Some [4, 0, 0]\<rparr>) = Some [4, 0, 0]" by simp
  note T1 = serializeToBuffer_packs_modulo [of stride_2048 "[]" "[]" None index_uint32 0, THEN conjunct1, THEN mp, OF n]
  note T2 = serializeToBuffer_packs_modulo [of "stride_2048\<lparr>serializedBuffer := Some [4, 0, 0]\<rparr>" "[4, 0, 0]" "[]" None index_uint32 0,
               THEN conjunct2, THEN conjunct1, THEN mp, OF s]
  have p: "packedLayout stride_2048 = [4, 1, 128, 4, 32, 20]"
    by (simp add: stride_2048_def packed_defs)
  show ?thesis using T1 T2 p by simp
qed

section \<open>Properties of the cache\<close>

lemma extends_refl: "extends st st"
  by (simp add: extends_def)

lemma extends_trans: "extends a b \<Longrightarrow> extends b c \<Longrightarrow> extends a c"
  unfolding extends_def by (metis le_trans)

lemma cache_inv_new: "cache_inv new_cache"
  by (simp add: cache_inv_def new_cache_def)

lemma alloc_fields:
  "alloc st obj = (r, st') \<Longrightarrow>
     r = nextRef st \<and> nextRef st' = Suc (nextRef st) \<and> nextId st' = nextId st
     \<and> keyMap st' = keyMap st \<and> cache st' = cache st \<and> heap st' = (heap st)(nextRef st \<mapsto> obj)"
  by (auto simp: alloc_def)

lemma alloc_inv:
  assumes "cache_inv st" and "alloc st obj = (r, st')"
  shows "cache_inv st'" and "extends st st'"
proof -
  note f = alloc_fields [OF assms(2)]
  have old: "\<And>i a. cache st i = Some a \<Longrightarrow> a < nextRef st"
    using assms(1) by (auto simp: cache_inv_def)
  show "cache_inv st'"
    unfolding cache_inv_def
  proof (intro conjI allI impI)
    show "1 \<le> nextId st'" using assms(1) f by (simp add: cache_inv_def)
  next
    fix k i assume "keyMap st' k = Some i"
    then have "keyMap st k = Some i" using f by simp
    then obtain a obj' where a: "cache st i = Some a" "heap st a = Some obj'" "layout_id obj' = Some i"
        "serializedString obj' = Some k" "k \<noteq> []"
      using assms(1) unfolding cache_inv_def by blast
    then have "a \<noteq> nextRef st" using old by blast
    then have "heap st' a = Some obj'" using f a by simp
    then show "\<exists>r obj. cache st' i = Some r \<and> heap st' r = Some obj \<and> layout_id obj = Some i
                  \<and> serializedString obj = Some k \<and> k \<noteq> []"
      using a f by auto
  next
    fix i a assume "cache st' i = Some a"
    then have c: "cache st i = Some a" using f by simp
    then have "1 \<le> i \<and> i < nextId st \<and> a < nextRef st \<and> (\<exists>k. keyMap st k = Some i)"
      using assms(1) unfolding cache_inv_def by blast
    then show "1 \<le> i" "i < nextId st'" "a < nextRef st'" "\<exists>k. keyMap st' k = Some i"
      using f by auto
  next
    fix i assume "1 \<le> i \<and> i < nextId st'"
    then show "cache st' i \<noteq> None" using assms(1) f unfolding cache_inv_def by simp
  qed
  show "extends st st'"
    unfolding extends_def using f old by (auto simp: less_not_refl)
qed

lemma add_fields:
  "addLayoutToCache st r key = (r', st') \<Longrightarrow>
     r' = r \<and> nextRef st' = nextRef st \<and> nextId st' = Suc (nextId st)
     \<and> keyMap st' = (keyMap st)(key \<mapsto> nextId st) \<and> cache st' = (cache st)(nextId st \<mapsto> r)
     \<and> heap st' = (heap st)(r := map_option (\<lambda>obj. obj\<lparr>layout_id := Some (nextId st)\<rparr>) (heap st r))"
  by (auto simp: addLayoutToCache_def Let_def)

lemma add_inv:
  assumes inv: "cache_inv st" and add: "addLayoutToCache st r key = (r', st')"
    and fresh: "keyMap st key = None" "\<And>i. cache st i \<noteq> Some r" "r < nextRef st"
    and obj: "heap st r = Some obj" "serializedString obj = Some key" "key \<noteq> []"
  shows "cache_inv st'" and "extends st st'"
    and "keyMap st' key = Some (nextId st)" and "cache st' (nextId st) = Some r"
    and "heap st' r = Some (obj\<lparr>layout_id := Some (nextId st)\<rparr>)"
proof -
  note f = add_fields [OF add]
  have nocache: "cache st (nextId st) = None"
    using inv unfolding cache_inv_def by (metis less_irrefl not_Some_eq)
  show h: "heap st' r = Some (obj\<lparr>layout_id := Some (nextId st)\<rparr>)" using f obj by simp
  show "keyMap st' key = Some (nextId st)" "cache st' (nextId st) = Some r" using f by simp_all
  show "cache_inv st'"
    unfolding cache_inv_def
  proof (intro conjI allI impI)
    show "1 \<le> nextId st'" using f by simp
  next
    fix k i assume ki: "keyMap st' k = Some i"
    show "\<exists>a o'. cache st' i = Some a \<and> heap st' a = Some o' \<and> layout_id o' = Some i
                  \<and> serializedString o' = Some k \<and> k \<noteq> []"
    proof (cases "k = key")
      case True
      then have "i = nextId st" using ki f by simp
      then show ?thesis using True f h obj by simp
    next
      case False
      then have "keyMap st k = Some i" using ki f by simp
      then obtain a o' where a: "cache st i = Some a" "heap st a = Some o'" "layout_id o' = Some i"
        "serializedString o' = Some k" "k \<noteq> []"
        using inv unfolding cache_inv_def by blast
      then have "i \<noteq> nextId st" "a \<noteq> r" using nocache fresh(2) by auto
      then show ?thesis using a f by simp
    qed
  next
    fix i a assume c: "cache st' i = Some a"
    have "1 \<le> i \<and> i < nextId st' \<and> a < nextRef st' \<and> (\<exists>k. keyMap st' k = Some i)"
    proof (cases "i = nextId st")
      case True
      then have "a = r" using c f by simp
      moreover have "1 \<le> nextId st" using inv by (simp add: cache_inv_def)
      ultimately show ?thesis using True f fresh(3) by auto
    next
      case False
      then have c': "cache st i = Some a" using c f by simp
      then have *: "1 \<le> i \<and> i < nextId st \<and> a < nextRef st \<and> (\<exists>k. keyMap st k = Some i)"
        using inv unfolding cache_inv_def by blast
      then obtain k where k: "keyMap st k = Some i" by blast
      then have "k \<noteq> key" using fresh(1) by auto
      then have "keyMap st' k = Some i" using k f by simp
      then have "\<exists>k. keyMap st' k = Some i" by blast
      moreover have "1 \<le> i" "i < nextId st'" "a < nextRef st'" using * f by simp_all
      ultimately show ?thesis by blast
    qed
    then show "1 \<le> i" "i < nextId st'" "a < nextRef st'" "\<exists>k. keyMap st' k = Some i"
      by blast+
  next
    fix i assume "1 \<le> i \<and> i < nextId st'"
    then show "cache st' i \<noteq> None"
      using inv f unfolding cache_inv_def by (cases "i = nextId st") auto
  qed
  show "extends st st'"
    unfolding extends_def
  proof (intro conjI allI impI)
    show "nextId st \<le> nextId st'" using f by simp
  next
    fix k i assume "keyMap st k = Some i"
    then show "keyMap st' k = Some i" using f fresh(1) by auto
  next
    fix i a assume c: "cache st i = Some a"
    then have "i \<noteq> nextId st" "a \<noteq> r" using nocache fresh(2) by auto
    then show "cache st' i = Some a" "heap st' a = heap st a" using c f by simp_all
  qed
qed

lemma Uint8ToHex_length: "length (Uint8ToHex b) = 2"
  by (simp add: Uint8ToHex_def)

lemma hex_nonempty: "concat (map Uint8ToHex (b # bs)) \<noteq> []"
  by (simp add: Uint8ToHex_def)

lemma encodeLayout_Cons: "\<exists>b bs. encodeLayout l = b # bs"
  by (simp add: encodeLayout_def setUint8_def Let_def)

lemma serializeToString_new:
  assumes "serializeToString (GeometryLayout_new bufs topo f) = (k, obj)"
  shows "k = concat (map Uint8ToHex (encodeLayout (GeometryLayout_new bufs topo f)))"
    and "k \<noteq> []" and "serializedString obj = Some k" and "layout_id obj = None"
    and "buffers obj = bufs" and "topology obj = topo"
    and "stripIndexFormat obj = stripIndexFormat (GeometryLayout_new bufs topo f)"
    and "serializedBuffer obj = Some (encodeLayout (GeometryLayout_new bufs topo f))"
proof -
  have s: "serializedString (GeometryLayout_new bufs topo f) = None"
      "serializedBuffer (GeometryLayout_new bufs topo f) = None"
    by (simp_all add: GeometryLayout_new_def)
  have eq: "(k, obj) =
     (concat (map Uint8ToHex (encodeLayout (GeometryLayout_new bufs topo f))),
      (GeometryLayout_new bufs topo f)
        \<lparr>serializedBuffer := Some (encodeLayout (GeometryLayout_new bufs topo f)),
         serializedString := Some (concat (map Uint8ToHex (encodeLayout (GeometryLayout_new bufs topo f))))\<rparr>)"
    using assms by (auto simp: serializeToString_def serializeToBuffer_def s Let_def)
  then show k: "k = concat (map Uint8ToHex (encodeLayout (GeometryLayout_new bufs topo f)))"
    by simp
  obtain b bs where "encodeLayout (GeometryLayout_new bufs topo f) = b # bs"
    using encodeLayout_Cons by blast
  then show "k \<noteq> []" using k hex_nonempty by simp
  show "serializedString obj = Some k" "layout_id obj = None" "buffers obj = bufs" "topology obj = topo"
    "stripIndexFormat obj = stripIndexFormat (GeometryLayout_new bufs topo f)"
    "serializedBuffer obj = Some (encodeLayout (GeometryLayout_new bufs topo f))"
    using eq by (simp_all add: GeometryLayout_new_def)
qed

lemma decodeView_fresh:
  "decodeView v = Inr obj \<Longrightarrow> layout_id obj = None \<and> v \<noteq> []"
  by (auto simp: decodeView_def GeometryLayout_new_def Let_def split: list.splits sum.splits)

lemma deserializeFromString_cached:
  assumes "deserializeFromString key = Inr obj"
  shows "serializedString obj = Some key" and "serializedBuffer obj = Some (hexBytes key)"
    and "key \<noteq> []" and "layout_id obj = None"
proof -
  obtain l where l: "decodeView (hexBytes key) = Inr l"
      and o: "obj = l\<lparr>serializedBuffer := Some (hexBytes key), serializedString := Some key\<rparr>"
    using assms
    by (auto simp: deserializeFromString_def deserializeFromBuffer_def DataView_new_def Let_def
             split: sum.splits)
  show "serializedString obj = Some key" "serializedBuffer obj = Some (hexBytes key)"
    using o by simp_all
  have "hexBytes key \<noteq> []" "layout_id l = None" using decodeView_fresh [OF l] by simp_all
  then show "key \<noteq> []" "layout_id obj = None" using o by (auto simp: hexBytes_def)
qed

lemma serializeToString_cached:
  "serializedString obj = Some k \<Longrightarrow> k \<noteq> [] \<Longrightarrow> fst (serializeToString obj) = k"
  by (simp add: serializeToString_def)

lemma createLayout_inv:
  assumes inv: "cache_inv st" and c: "createLayout st attribBuffers topo indexFormat = (res, st')"
  shows "cache_inv st'" and "extends st st'"
    and "\<exists>i r obj. res = Some r \<and> keyMap st' (layoutKey attribBuffers topo indexFormat) = Some i
           \<and> cache st' i = Some r \<and> heap st' r = Some obj \<and> layout_id obj = Some i
           \<and> (case keyMap st (layoutKey attribBuffers topo indexFormat) of
                 Some j \<Rightarrow> i = j \<and> nextId st' = nextId st
               | None \<Rightarrow> i = nextId st \<and> nextId st' = Suc (nextId st)
                          \<and> buffers obj = copyBuffers attribBuffers
                          \<and> serializedBuffer obj = Some (encodeLayout
                                (GeometryLayout_new (copyBuffers attribBuffers) (Some topo)
                                   (case indexFormat of None \<Rightarrow> index_uint32 | Some f \<Rightarrow> f))))
           \<and> keyMap st' = (keyMap st)(layoutKey attribBuffers topo indexFormat \<mapsto> i)"
proof -
  let ?new = "GeometryLayout_new (copyBuffers attribBuffers) (Some topo)
                (case indexFormat of None \<Rightarrow> index_uint32 | Some f \<Rightarrow> f)"
  let ?key = "layoutKey attribBuffers topo indexFormat"
  obtain k obj where s: "serializeToString ?new = (k, obj)" by (cases "serializeToString ?new")
  have k: "k = ?key" using s by (simp add: layoutKey_def)
  note so = serializeToString_new [OF s]
  obtain a st1 where al: "alloc st obj = (a, st1)" by (cases "alloc st obj")
  note f1 = alloc_fields [OF al]
  note i1 = alloc_inv [OF inv al]
  have "cache_inv st' \<and> extends st st' \<and>
        (\<exists>i r obj. res = Some r \<and> keyMap st' ?key = Some i
           \<and> cache st' i = Some r \<and> heap st' r = Some obj \<and> layout_id obj = Some i
           \<and> (case keyMap st ?key of
                 Some j \<Rightarrow> i = j \<and> nextId st' = nextId st
               | None \<Rightarrow> i = nextId st \<and> nextId st' = Suc (nextId st)
                          \<and> buffers obj = copyBuffers attribBuffers
                          \<and> serializedBuffer obj = Some (encodeLayout
                                (GeometryLayout_new (copyBuffers attribBuffers) (Some topo)
                                   (case indexFormat of None \<Rightarrow> index_uint32 | Some f \<Rightarrow> f))))
           \<and> keyMap st' = (keyMap st)(layoutKey attribBuffers topo indexFormat \<mapsto> i))"
  proof (cases "keyMap st ?key")
    case (Some j)
    then have km: "keyMap st1 k = Some j" using f1 k by simp
    then have r: "res = cache st1 j" "st' = st1"
      using c s al by (auto simp: createLayout_def Let_def)
    obtain b o' where b: "cache st1 j = Some b" "heap st1 b = Some o'" "layout_id o' = Some j"
      using i1(1) km unfolding cache_inv_def by blast
    have "keyMap st1 = (keyMap st)(?key \<mapsto> j)" using Some f1 by (auto simp: fun_upd_idem)
    then show ?thesis using Some r b km k i1 f1 by simp
  next
    case None
    then have km: "keyMap st1 k = None" using f1 k by simp
    obtain r' st2 where ad: "addLayoutToCache st1 a k = (r', st2)" by (cases "addLayoutToCache st1 a k")
    have r: "res = Some r'" "st' = st2"
      using c s al km ad by (auto simp: createLayout_def Let_def)
    have nc: "\<And>i. cache st1 i \<noteq> Some a"
    proof
      fix i assume "cache st1 i = Some a"
      then have "cache st i = Some a" using f1 by simp
      then have "a < nextRef st" using inv unfolding cache_inv_def by blast
      then show False using f1 by simp
    qed
    have h: "heap st1 a = Some obj" "a < nextRef st1" using f1 by simp_all
    note i2 = add_inv [OF i1(1) ad km nc h(2) h(1) so(3) so(2)]
    note f2 = add_fields [OF ad]
    have "extends st st'" using i1(2) i2(2) r extends_trans by blast
    moreover have "nextId st' = Suc (nextId st)" using f1 f2 r by simp
    moreover have "buffers (obj\<lparr>layout_id := Some (nextId st1)\<rparr>) = copyBuffers attribBuffers"
        "serializedBuffer (obj\<lparr>layout_id := Some (nextId st1)\<rparr>) = Some (encodeLayout ?new)"
      using so by simp_all
    ultimately show ?thesis using None r i2 f1 f2 k by simp
  qed
  then show "cache_inv st'" "extends st st'"
    "\<exists>i r obj. res = Some r \<and> keyMap st' ?key = Some i
           \<and> cache st' i = Some r \<and> heap st' r = Some obj \<and> layout_id obj = Some i
           \<and> (case keyMap st ?key of
                 Some j \<Rightarrow> i = j \<and> nextId st' = nextId st
               | None \<Rightarrow> i = nextId st \<and> nextId st' = Suc (nextId st)
                          \<and> buffers obj = copyBuffers attribBuffers
                          \<and> serializedBuffer obj = Some (encodeLayout
                                (GeometryLayout_new (copyBuffers attribBuffers) (Some topo)
                                   (case indexFormat of None \<Rightarrow> index_uint32 | Some f \<Rightarrow> f))))
           \<and> keyMap st' = (keyMap st)(layoutKey attribBuffers topo indexFormat \<mapsto> i)"
    by blast+
qed

lemma deserializeLayout_inv:
  assumes inv: "cache_inv st" and c: "deserializeLayout st key = Inr (res, st')"
  shows "cache_inv st'" and "extends st st'"
    and "\<exists>i r obj. res = Some r \<and> keyMap st' key = Some i
           \<and> cache st' i = Some r \<and> heap st' r = Some obj \<and> layout_id obj = Some i
           \<and> (case keyMap st key of
                 Some j \<Rightarrow> i = j \<and> nextId st' = nextId st
               | None \<Rightarrow> i = nextId st \<and> nextId st' = Suc (nextId st))
           \<and> keyMap st' = (keyMap st)(key \<mapsto> i)"
proof -
  have "cache_inv st' \<and> extends st st' \<and>
        (\<exists>i r obj. res = Some r \<and> keyMap st' key = Some i
           \<and> cache st' i = Some r \<and> heap st' r = Some obj \<and> layout_id obj = Some i
           \<and> (case keyMap st key of
                 Some j \<Rightarrow> i = j \<and> nextId st' = nextId st
               | None \<Rightarrow> i = nextId st \<and> nextId st' = Suc (nextId st))
           \<and> keyMap st' = (keyMap st)(key \<mapsto> i))"
  proof (cases "keyMap st key")
    case (Some j)
    then have r: "res = cache st j" "st' = st"
      using c by (auto simp: deserializeLayout_def)
    obtain b o' where b: "cache st j = Some b" "heap st b = Some o'" "layout_id o' = Some j"
      using inv Some unfolding cache_inv_def by blast
    have "keyMap st = (keyMap st)(key \<mapsto> j)" using Some by (auto simp: fun_upd_idem)
    then show ?thesis using Some r b inv extends_refl by simp
  next
    case None
    obtain obj where d: "deserializeFromString key = Inr obj"
      using c None by (auto simp: deserializeLayout_def split: sum.splits)
    note so = deserializeFromString_cached [OF d]
    obtain a st1 where al: "alloc st obj = (a, st1)" by (cases "alloc st obj")
    note f1 = alloc_fields [OF al]
    note i1 = alloc_inv [OF inv al]
    have km: "keyMap st1 key = None" using f1 None by simp
    obtain r' st2 where ad: "addLayoutToCache st1 a key = (r', st2)"
      by (cases "addLayoutToCache st1 a key")
    have r: "res = Some r'" "st' = st2"
      using c None d al ad by (auto simp: deserializeLayout_def Let_def)
    have nc: "\<And>i. cache st1 i \<noteq> Some a"
    proof
      fix i assume "cache st1 i = Some a"
      then have "cache st i = Some a" using f1 by simp
      then have "a < nextRef st" using inv unfolding cache_inv_def by blast
      then show False using f1 by simp
    qed
    have h: "heap st1 a = Some obj" "a < nextRef st1" using f1 by simp_all
    note i2 = add_inv [OF i1(1) ad km nc h(2) h(1) so(1) so(3)]
    note f2 = add_fields [OF ad]
    have "extends st st'" using i1(2) i2(2) r extends_trans by blast
    moreover have "nextId st' = Suc (nextId st)" using f1 f2 r by simp
    ultimately show ?thesis using None r i2 f1 f2 by simp
  qed
  then show "cache_inv st'" "extends st st'"
    "\<exists>i r obj. res = Some r \<and> keyMap st' key = Some i
           \<and> cache st' i = Some r \<and> heap st' r = Some obj \<and> layout_id obj = Some i
           \<and> (case keyMap st key of
                 Some j \<Rightarrow> i = j \<and> nextId st' = nextId st
               | None \<Rightarrow> i = nextId st \<and> nextId st' = Suc (nextId st))
           \<and> keyMap st' = (keyMap st)(key \<mapsto> i)"
    by blast+
qed

lemma inv_id_range:
  "cache_inv st \<Longrightarrow> keyMap st k = Some i \<Longrightarrow> 1 \<le> i \<and> i < nextId st"
  unfolding cache_inv_def by blast

lemma step_inv:
  assumes inv: "cache_inv st" and s: "step c st = (res, st')"
  shows "cache_inv st'" and "extends st st'"
    and "((id_of st' res = None \<or> (\<exists>i. id_of st' res = Some i \<and> 1 \<le> i \<and> i < nextId st))
            \<and> nextId st' = nextId st)
         \<or> (id_of st' res = Some (nextId st) \<and> nextId st' = Suc (nextId st))"
proof -
  let ?P = "cache_inv st' \<and> extends st st' \<and>
     (((id_of st' res = None \<or> (\<exists>i. id_of st' res = Some i \<and> 1 \<le> i \<and> i < nextId st))
            \<and> nextId st' = nextId st)
         \<or> (id_of st' res = Some (nextId st) \<and> nextId st' = Suc (nextId st)))"
  have ?P
  proof (cases c)
    case (CreateLayout bufs topo f)
    then have c: "createLayout st bufs topo f = (res, st')" using s by simp
    note l = createLayout_inv [OF inv c]
    obtain i r obj where r: "res = Some r" "heap st' r = Some obj" "layout_id obj = Some i"
      and k: "case keyMap st (layoutKey bufs topo f) of
                 Some j \<Rightarrow> i = j \<and> nextId st' = nextId st
               | None \<Rightarrow> i = nextId st \<and> nextId st' = Suc (nextId st)
                          \<and> buffers obj = copyBuffers bufs
                          \<and> serializedBuffer obj = Some (encodeLayout
                                (GeometryLayout_new (copyBuffers bufs) (Some topo)
                                   (case f of None \<Rightarrow> index_uint32 | Some f \<Rightarrow> f)))"
      using l(3) by blast
    have id: "id_of st' res = Some i" using r by (simp add: id_of_def)
    show ?thesis
    proof (cases "keyMap st (layoutKey bufs topo f)")
      case None
      then show ?thesis using k id l by simp
    next
      case (Some j)
      then show ?thesis using k id l inv_id_range [OF inv Some] by simp
    qed
  next
    case (DeserializeLayout key)
    show ?thesis
    proof (cases "deserializeLayout st key")
      case (Inl e)
      then have "res = None" "st' = st" using s DeserializeLayout by auto
      then show ?thesis using inv extends_refl by (simp add: id_of_def)
    next
      case (Inr p)
      then have c: "deserializeLayout st key = Inr (res, st')" using s DeserializeLayout by auto
      note l = deserializeLayout_inv [OF inv c]
      obtain i r obj where r: "res = Some r" "heap st' r = Some obj" "layout_id obj = Some i"
        and k: "case keyMap st key of
                 Some j \<Rightarrow> i = j \<and> nextId st' = nextId st
               | None \<Rightarrow> i = nextId st \<and> nextId st' = Suc (nextId st)"
        using l(3) by blast
      have id: "id_of st' res = Some i" using r by (simp add: id_of_def)
      show ?thesis
      proof (cases "keyMap st key")
        case None
        then show ?thesis using k id l by simp
      next
        case (Some j)
        then show ?thesis using k id l inv_id_range [OF inv Some] by simp
      qed
    qed
  qed
  then show "cache_inv st'" "extends st st'"
    "((id_of st' res = None \<or> (\<exists>i. id_of st' res = Some i \<and> 1 \<le> i \<and> i < nextId st))
            \<and> nextId st' = nextId st)
         \<or> (id_of st' res = Some (nextId st) \<and> nextId st' = Suc (nextId st))"
    by blast+
qed

lemma run_inv: "cache_inv st \<Longrightarrow> cache_inv (run cs st) \<and> extends st (run cs st)"
proof (induction cs arbitrary: st)
  case Nil
  then show ?case by (simp add: extends_refl)
next
  case (Cons c cs)
  obtain res st' where s: "step c st = (res, st')" by (cases "step c st")
  note l = step_inv [OF Cons.prems s]
  have "cache_inv (run cs st') \<and> extends st' (run cs st')" using Cons.IH l(1) by blast
  then show ?case using s l(2) extends_trans by auto
qed

lemma removeAll_filter_le:
  "removeAll (n::nat) (filter (\<lambda>i. n \<le> i) xs) = filter (\<lambda>i. Suc n \<le> i) xs"
  by (induction xs) auto

lemma trace_first_seen:
  "cache_inv st \<Longrightarrow>
     first_seen (filter (\<lambda>i. nextId st \<le> i) (trace cs st)) = [nextId st ..< nextId (run cs st)]"
proof (induction cs arbitrary: st)
  case Nil
  then show ?case by simp
next
  case (Cons c cs)
  obtain res st' where s: "step c st = (res, st')" by (cases "step c st")
  note l = step_inv [OF Cons.prems s]
  note ih = Cons.IH [OF l(1)]
  have mono: "nextId st' \<le> nextId (run cs st')" using run_inv [OF l(1)] by (simp add: extends_def)
  from l(3) show ?case
  proof (elim disjE conjE exE)
    assume "id_of st' res = None" "nextId st' = nextId st"
    then show ?thesis using s ih by simp
  next
    fix i assume "id_of st' res = Some i" "1 \<le> i" "i < nextId st" "nextId st' = nextId st"
    then show ?thesis using s ih by simp
  next
    assume a: "id_of st' res = Some (nextId st)" "nextId st' = Suc (nextId st)"
    have "first_seen (filter (\<lambda>i. nextId st \<le> i) (trace (c # cs) st))
            = nextId st # first_seen (filter (\<lambda>i. Suc (nextId st) \<le> i) (trace cs st'))"
      using s a by (simp add: removeAll_filter_le)
    also have "\<dots> = nextId st # [Suc (nextId st) ..< nextId (run cs st')]" using ih a by simp
    also have "\<dots> = [nextId st ..< nextId (run cs st')]" using mono a by (simp add: upt_conv_Cons)
    finally show ?thesis using s by simp
  qed
qed

lemma trace_positive: "cache_inv st \<Longrightarrow> i \<in> set (trace cs st) \<Longrightarrow> 1 \<le> i"
proof (induction cs arbitrary: st)
  case Nil
  then show ?case by simp
next
  case (Cons c cs)
  obtain res st' where s: "step c st = (res, st')" by (cases "step c st")
  note l = step_inv [OF Cons.prems(1) s]
  have "1 \<le> nextId st" using Cons.prems(1) by (simp add: cache_inv_def)
  then have "id_of st' res = Some i \<Longrightarrow> 1 \<le> i" using l(3) by auto
  moreover have "i \<in> set (trace cs st') \<Longrightarrow> 1 \<le> i" using Cons.IH l(1) by blast
  ultimately show ?case using Cons.prems(2) s by (auto split: option.splits)
qed

lemma keyMap_inj: "cache_inv st \<Longrightarrow> inj_on (keyMap st) (dom (keyMap st))"
proof (rule inj_onI)
  fix k k' assume inv: "cache_inv st" and k: "k \<in> dom (keyMap st)" "k' \<in> dom (keyMap st)"
    and eq: "keyMap st k = keyMap st k'"
  obtain i where i: "keyMap st k = Some i" "keyMap st k' = Some i" using k eq by auto
  obtain r obj where a: "cache st i = Some r" "heap st r = Some obj" "serializedString obj = Some k"
    using inv i(1) unfolding cache_inv_def by blast
  obtain r' obj' where b: "cache st i = Some r'" "heap st r' = Some obj'" "serializedString obj' = Some k'"
    using inv i(2) unfolding cache_inv_def by blast
  show "k = k'" using a b by simp
qed

lemma keyMap_card: "cache_inv st \<Longrightarrow> Suc (card (dom (keyMap st))) = nextId st"
proof -
  assume inv: "cache_inv st"
  let ?f = "\<lambda>k. the (keyMap st k)"
  have "bij_betw ?f (dom (keyMap st)) {1 ..< nextId st}"
    unfolding bij_betw_def
  proof
    show "inj_on ?f (dom (keyMap st))"
    proof (rule inj_onI)
      fix k k' assume k: "k \<in> dom (keyMap st)" "k' \<in> dom (keyMap st)"
        and "the (keyMap st k) = the (keyMap st k')"
      then have "keyMap st k = keyMap st k'" by auto
      then show "k = k'" using keyMap_inj [OF inv] k by (simp add: inj_on_def)
    qed
    show "?f ` dom (keyMap st) = {1 ..< nextId st}"
    proof (rule set_eqI, rule iffI)
      fix i assume "i \<in> ?f ` dom (keyMap st)"
      then obtain k where "keyMap st k = Some i" by auto
      then show "i \<in> {1 ..< nextId st}" using inv_id_range [OF inv] by auto
    next
      fix i assume "i \<in> {1 ..< nextId st}"
      then obtain r where "cache st i = Some r" using inv unfolding cache_inv_def by auto
      then obtain k where "keyMap st k = Some i" using inv unfolding cache_inv_def by blast
      then show "i \<in> ?f ` dom (keyMap st)" by force
    qed
  qed
  then have "card (dom (keyMap st)) = card {1 ..< nextId st}" by (rule bij_betw_same_card)
  moreover have "1 \<le> nextId st" using inv by (simp add: cache_inv_def)
  ultimately show ?thesis by simp
qed

lemma deserializeLayout_Inl:
  "deserializeLayout st key = Inl e \<longleftrightarrow> keyMap st key = None \<and> deserializeFromString key = Inl e"
  by (auto simp: deserializeLayout_def Let_def split: option.splits sum.splits prod.splits)

lemma step_replay:
  assumes inv: "cache_inv st" "cache_inv st2"
    and same: "keyMap st = keyMap st2" "nextId st = nextId st2"
    and s: "step c st = (r, st')" "step c st2 = (r2, st2')"
  shows "id_of st' r = id_of st2' r2 \<and> keyMap st' = keyMap st2' \<and> nextId st' = nextId st2'"
proof (cases c)
  case (CreateLayout bufs topo f)
  then have c: "createLayout st bufs topo f = (r, st')" "createLayout st2 bufs topo f = (r2, st2')"
    using s by simp_all
  from createLayout_inv(3) [OF inv(1) c(1)] createLayout_inv(3) [OF inv(2) c(2)] same
  show ?thesis
    by (cases "keyMap st2 (layoutKey bufs topo f)") (auto simp: id_of_def)
next
  case (DeserializeLayout key)
  show ?thesis
  proof (cases "deserializeLayout st key")
    case (Inl e)
    then have "deserializeLayout st2 key = Inl e" using same by (simp add: deserializeLayout_Inl)
    then show ?thesis using Inl s same DeserializeLayout by (auto simp: id_of_def)
  next
    case (Inr p)
    obtain p2 where p2: "deserializeLayout st2 key = Inr p2"
    proof (cases "deserializeLayout st2 key")
      case (Inl e)
      then have "deserializeLayout st key = Inl e" using same by (simp add: deserializeLayout_Inl)
      then show ?thesis using Inr by simp
    qed
    have c: "deserializeLayout st key = Inr (r, st')" "deserializeLayout st2 key = Inr (r2, st2')"
      using Inr p2 s DeserializeLayout by auto
    from deserializeLayout_inv(3) [OF inv(1) c(1)] deserializeLayout_inv(3) [OF inv(2) c(2)] same
    show ?thesis
      by (cases "keyMap st2 key") (auto simp: id_of_def)
  qed
qed

lemma trace_replay:
  "cache_inv st \<Longrightarrow> cache_inv st2 \<Longrightarrow> keyMap st = keyMap st2 \<Longrightarrow> nextId st = nextId st2
     \<Longrightarrow> trace cs st = trace cs st2"
proof (induction cs arbitrary: st st2)
  case Nil
  then show ?case by simp
next
  case (Cons c cs)
  obtain r st' where s: "step c st = (r, st')" by (cases "step c st")
  obtain r2 st2' where s2: "step c st2 = (r2, st2')" by (cases "step c st2")
  note e = step_replay [OF Cons.prems s s2]
  have "trace cs st' = trace cs st2'"
  proof (rule Cons.IH)
    show "cache_inv st'" by (rule step_inv(1) [OF Cons.prems(1) s])
    show "cache_inv st2'" by (rule step_inv(1) [OF Cons.prems(2) s2])
    show "keyMap st' = keyMap st2'" "nextId st' = nextId st2'" using e by simp_all
  qed
  moreover have "id_of st' r = id_of st2' r2" using e by simp
  ultimately show ?case using s s2 by simp
qed

lemma fresh_cache_inv:
  "keyMap st = Map.empty \<Longrightarrow> cache st = Map.empty \<Longrightarrow> nextId st = 1 \<Longrightarrow> cache_inv st"
  by (simp add: cache_inv_def)

lemma run_append: "run (cs @ ds) st = run ds (run cs st)"
  by (induction cs arbitrary: st) simp_all

lemmas run_defs = createLayout_def GeometryLayout_new_def copyBuffers_def copyAttrib_def
  serializeToString_def serializeToBuffer_def encodeLayout_def encodeBuffer_def encodeAttrib_def
  setUint16_def setUint8_def shl_def ToInt32_def Uint8ToHex_def hexDigit_def alloc_def
  addLayoutToCache_def new_cache_def id_of_def Let_def

text \<open>
  Claim C5 (ids): the ids that the calls of a session return, each at its first
  appearance, are 1, 2, ..., N, where N is the number of keys registered; two keys never
  share an id, an id once assigned to a key stays with it however the session goes on,
  and a replay of the session on any fresh cache (whatever other objects the store
  holds) returns the same ids call by call.  Ids are natural numbers here; the counter
  of the source is a double and exact below \<open>2^53\<close>.
\<close>

theorem ids_sequential:
  "first_seen (trace ops new_cache) = [1 ..< Suc (card (dom (keyMap (run ops new_cache))))]
   \<and> nextId (run ops new_cache) = Suc (card (dom (keyMap (run ops new_cache))))
   \<and> dom (cache (run ops new_cache)) = {1 ..< nextId (run ops new_cache)}
   \<and> inj_on (keyMap (run ops new_cache)) (dom (keyMap (run ops new_cache)))
   \<and> (keyMap (run ops new_cache) k = Some i \<longrightarrow> keyMap (run (ops @ later) new_cache) k = Some i)
   \<and> (keyMap st = Map.empty \<and> cache st = Map.empty \<and> nextId st = 1
        \<longrightarrow> trace ops st = trace ops new_cache)"
proof (intro conjI impI)
  let ?st = "run ops new_cache"
  have inv: "cache_inv ?st" using run_inv [OF cache_inv_new] by blast
  have pos: "filter (\<lambda>i. 1 \<le> i) (trace ops new_cache) = trace ops new_cache"
    by (rule filter_True) (use trace_positive [OF cache_inv_new] in blast)
  have n1: "nextId new_cache = 1" by (simp add: new_cache_def)
  have "first_seen (filter (\<lambda>i. nextId new_cache \<le> i) (trace ops new_cache))
          = [nextId new_cache ..< nextId ?st]"
    by (rule trace_first_seen [OF cache_inv_new])
  then have "first_seen (trace ops new_cache) = [1 ..< nextId ?st]"
    by (simp only: n1 pos)
  then show "first_seen (trace ops new_cache) = [1 ..< Suc (card (dom (keyMap ?st)))]"
    by (simp only: keyMap_card [OF inv])
  show "nextId ?st = Suc (card (dom (keyMap ?st)))" using keyMap_card [OF inv] by simp
  show "dom (cache ?st) = {1 ..< nextId ?st}"
  proof (rule set_eqI, rule iffI)
    fix j assume "j \<in> dom (cache ?st)"
    then obtain r where "cache ?st j = Some r" by blast
    then have "1 \<le> j \<and> j < nextId ?st" using inv unfolding cache_inv_def by blast
    then show "j \<in> {1 ..< nextId ?st}" by simp
  next
    fix j assume "j \<in> {1 ..< nextId ?st}"
    then have "cache ?st j \<noteq> None" using inv unfolding cache_inv_def by simp
    then show "j \<in> dom (cache ?st)" by blast
  qed
  show "inj_on (keyMap ?st) (dom (keyMap ?st))" by (rule keyMap_inj [OF inv])
next
  assume "keyMap (run ops new_cache) k = Some i"
  moreover have "cache_inv (run ops new_cache)" using run_inv [OF cache_inv_new] by blast
  then have "extends (run ops new_cache) (run later (run ops new_cache))" using run_inv by blast
  ultimately show "keyMap (run (ops @ later) new_cache) k = Some i"
    unfolding run_append extends_def by blast
next
  assume "keyMap st = Map.empty \<and> cache st = Map.empty \<and> nextId st = 1"
  then have fr: "cache_inv st" "keyMap st = keyMap new_cache" "nextId st = nextId new_cache"
    by (simp_all add: fresh_cache_inv new_cache_def)
  show "trace ops st = trace ops new_cache"
    by (rule trace_replay [OF fr(1) cache_inv_new fr(2) fr(3)])
qed

theorem ids_sequential_witness:
  "first_seen (trace two_keys new_cache) = [1, 2]
   \<and> keyMap (run two_keys new_cache) ''04'' = Some 1
   \<and> keyMap (run (two_keys @ [DeserializeLayout ''0c'']) new_cache) ''04'' = Some 1
   \<and> trace two_keys (new_cache\<lparr>nextRef := 7\<rparr>) = trace two_keys new_cache"
proof -
  note T = ids_sequential [of two_keys "''04''" 1 "[DeserializeLayout ''0c'']" "new_cache\<lparr>nextRef := 7\<rparr>"]
  have k: "keyMap (run two_keys new_cache) ''04'' = Some 1"
    by (simp add: two_keys_def run_defs)
  have n: "nextId (run two_keys new_cache) = 3"
    by (simp add: two_keys_def run_defs)
  have f: "keyMap (new_cache\<lparr>nextRef := 7\<rparr>) = Map.empty \<and> cache (new_cache\<lparr>nextRef := 7\<rparr>) = Map.empty
        \<and> nextId (new_cache\<lparr>nextRef := 7\<rparr>) = 1"
    by (simp add: new_cache_def)
  from T have "first_seen (trace two_keys new_cache) = [1 ..< Suc (card (dom (keyMap (run two_keys new_cache))))]"
    and "nextId (run two_keys new_cache) = Suc (card (dom (keyMap (run two_keys new_cache))))"
    by blast+
  then have "first_seen (trace two_keys new_cache) = [1 ..< nextId (run two_keys new_cache)]"
    by (simp only:)
  then have a: "first_seen (trace two_keys new_cache) = [1, 2]"
    unfolding n by (simp add: upt_rec)
  from T k have b: "keyMap (run (two_keys @ [DeserializeLayout ''0c'']) new_cache) ''04'' = Some 1"
    by blast
  from T f have c: "trace two_keys (new_cache\<lparr>nextRef := 7\<rparr>) = trace two_keys new_cache"
    by blast
  show ?thesis using a k b c by blast
qed

lemma copyBuffers_structural:
  assumes "map (\<lambda>b. (arrayStride b, map (\<lambda>a. (shaderLocation a, format a, offset a)) (attributes b))) bufs1
         = map (\<lambda>b. (arrayStride b, map (\<lambda>a. (shaderLocation a, format a, offset a)) (attributes b))) bufs2"
  shows "copyBuffers bufs1 = copyBuffers bufs2"
proof -
  let ?g = "\<lambda>(s, as). \<lparr> arrayStride = s, stepMode = None,
               attributes = map (\<lambda>(l, f, o'). \<lparr> shaderLocation = l, format = f, offset = o' \<rparr>) as \<rparr>"
  have c: "\<And>bufs :: 'c GPUVertexBufferLayout_scheme list. copyBuffers bufs
      = map ?g (map (\<lambda>b. (arrayStride b, map (\<lambda>a. (shaderLocation a, format a, offset a)) (attributes b))) bufs)"
    by (simp add: copyBuffers_def copyAttrib_def comp_def)
  have c1: "copyBuffers bufs1
      = map ?g (map (\<lambda>b. (arrayStride b, map (\<lambda>a. (shaderLocation a, format a, offset a)) (attributes b))) bufs1)"
    by (simp add: copyBuffers_def copyAttrib_def comp_def)
  have c2: "copyBuffers bufs2
      = map ?g (map (\<lambda>b. (arrayStride b, map (\<lambda>a. (shaderLocation a, format a, offset a)) (attributes b))) bufs2)"
    by (simp add: copyBuffers_def copyAttrib_def comp_def)
  show ?thesis unfolding c1 c2 using assms by (simp only:)
qed

lemma dedup_calls:
  assumes eq: "copyBuffers bufs1 = copyBuffers bufs2"
    and inv: "cache_inv st0"
    and c1: "createLayout st0 bufs1 topo indexFormat = (res1, st1)"
    and c2: "createLayout (run between st1) bufs2 topo indexFormat = (res2, st3)"
  shows "\<exists>r i. res1 = Some r \<and> res2 = Some r \<and> id_of st1 res1 = Some i \<and> id_of st3 res2 = Some i"
proof -
  let ?key = "layoutKey bufs1 topo indexFormat"
  have key: "layoutKey bufs2 topo indexFormat = ?key" by (simp add: layoutKey_def eq)
  note l1 = createLayout_inv [OF inv c1]
  obtain i r obj where a: "res1 = Some r" "keyMap st1 ?key = Some i" "cache st1 i = Some r"
      "heap st1 r = Some obj" "layout_id obj = Some i"
    using l1(3) by blast
  have inv2: "cache_inv (run between st1)" and ext: "extends st1 (run between st1)"
    using run_inv [OF l1(1)] by blast+
  have b: "keyMap (run between st1) ?key = Some i" "cache (run between st1) i = Some r"
      "heap (run between st1) r = Some obj"
    using ext a unfolding extends_def by auto
  note l2 = createLayout_inv [OF inv2 c2]
  obtain i' r' where c: "res2 = Some r'" "keyMap st3 ?key = Some i'" "cache st3 i' = Some r'"
    using l2(3) unfolding key by blast
  have "keyMap st3 ?key = Some i" "cache st3 i = Some r" "heap st3 r = Some obj"
    using l2(2) b unfolding extends_def by auto
  then have "i' = i" using c(2) by simp
  moreover note \<open>cache st3 i = Some r\<close>
  ultimately have "r' = r" using c(3) by simp
  then show ?thesis using a c(1) \<open>heap st3 r = Some obj\<close> by (simp add: id_of_def)
qed

lemma registered_key:
  assumes inv: "cache_inv st" and c: "cache st i = Some r" and h: "heap st r = Some obj"
  shows "layout_id obj = Some i \<and> keyMap st (fst (serializeToString obj)) = Some i"
proof -
  obtain k where k: "keyMap st k = Some i" using inv c unfolding cache_inv_def by blast
  then obtain r' obj' where a: "cache st i = Some r'" "heap st r' = Some obj'" "layout_id obj' = Some i"
      "serializedString obj' = Some k" "k \<noteq> []"
    using inv unfolding cache_inv_def by blast
  then have "obj' = obj" using c h by simp
  then show ?thesis using a k serializeToString_cached by simp
qed

lemma deserializeFromString_0c:
  "deserializeFromString ''0c''
     = Inr \<lparr> layout_id = None, buffers = [], topology = Some triangle_list, stripIndexFormat = None,
             serializedBuffer = Some [12], serializedString = Some ''0c'' \<rparr>"
proof -
  have h: "HexToUint8 ''0c'' = Some 12"
    by (simp add: HexToUint8_def HexToUint8_table_def Uint8ToHex_def hexDigit_def upt_rec)
  have hb: "hexBytes ''0c'' = [12]" by (simp add: hexBytes_def h upt_rec)
  show ?thesis by (simp add: deserializeFromString_def hb decode_defs Let_def)
qed

text \<open>
  Claim C2 (deduplication), second half refuted as stated: a cache holds a layout under
  the key string it was given.  \<open>deserializeLayout\<close> of \<open>0c\<close> registers a triangle list
  without buffers under \<open>0c\<close>, and \<open>createLayout\<close> of no buffers and \<open>triangle-list\<close>
  then registers another object, under \<open>04\<close>.  The two objects have the same fields and
  the same canonical encoding, the byte \<open>04\<close>, and the ids 1 and 2.
\<close>

theorem identical_encodings_two_objects:
  "cache (run noncanonical_key new_cache) 1 = Some 0
   \<and> cache (run noncanonical_key new_cache) 2 = Some 1
   \<and> heap (run noncanonical_key new_cache) 0
       = Some \<lparr> layout_id = Some 1, buffers = [], topology = Some triangle_list,
                stripIndexFormat = None, serializedBuffer = Some [12], serializedString = Some ''0c'' \<rparr>
   \<and> heap (run noncanonical_key new_cache) 1
       = Some \<lparr> layout_id = Some 2, buffers = [], topology = Some triangle_list,
                stripIndexFormat = None, serializedBuffer = Some [4], serializedString = Some ''04'' \<rparr>
   \<and> map_option encodeLayout (heap (run noncanonical_key new_cache) 0) = Some [4]
   \<and> map_option encodeLayout (heap (run noncanonical_key new_cache) 1) = Some [4]"
  by (simp add: noncanonical_key_def deserializeLayout_def deserializeFromString_0c run_defs)

lemma layoutKey_encoding:
  "layoutKey bufs topo fo
     = concat (map Uint8ToHex (encodeLayout (GeometryLayout_new (copyBuffers bufs) (Some topo)
          (case fo of None \<Rightarrow> index_uint32 | Some f \<Rightarrow> f))))"
proof -
  let ?new = "GeometryLayout_new (copyBuffers bufs) (Some topo)
                (case fo of None \<Rightarrow> index_uint32 | Some f \<Rightarrow> f)"
  obtain k obj where s: "serializeToString ?new = (k, obj)" by (cases "serializeToString ?new")
  show ?thesis using serializeToString_new(1) [OF s] s by (simp add: layoutKey_def)
qed

lemma createLayout_key:
  assumes inv: "cache_inv st" and c: "createLayout st bufs topo fo = (res, st')"
  shows "\<exists>r obj. res = Some r \<and> heap st' r = Some obj
      \<and> fst (serializeToString obj)
          = concat (map Uint8ToHex (encodeLayout (GeometryLayout_new (copyBuffers bufs) (Some topo)
               (case fo of None \<Rightarrow> index_uint32 | Some f \<Rightarrow> f))))"
proof -
  let ?key = "layoutKey bufs topo fo"
  note l = createLayout_inv [OF inv c]
  obtain i r obj where a: "res = Some r" "keyMap st' ?key = Some i" "cache st' i = Some r"
      "heap st' r = Some obj"
    using l(3) by blast
  obtain r' obj' where b: "cache st' i = Some r'" "heap st' r' = Some obj'"
      "serializedString obj' = Some ?key" "?key \<noteq> []"
    using l(1) a(2) unfolding cache_inv_def by blast
  have "obj' = obj" using a b by simp
  then have "fst (serializeToString obj) = ?key" using b serializeToString_cached by simp
  then show ?thesis using a by (simp add: layoutKey_encoding)
qed

text \<open>
  Claim C2 as amended: in any session, two calls of \<open>createLayout\<close> with inputs that
  agree on topology, index format, strides and on every attribute's location, format and
  offset return the same object, carrying the same id, whatever the cache has seen before
  and between.  Any two registered objects whose \<open>serializeToString\<close> gives the same
  string, the key under which the cache holds them, are one object.  And the object that
  \<open>createLayout\<close> returns is held under the hexadecimal string of the canonical encoding
  of its input.
\<close>

theorem createLayout_dedup:
  "(map (\<lambda>b. (arrayStride b, map (\<lambda>a. (shaderLocation a, format a, offset a)) (attributes b))) bufs1
      = map (\<lambda>b. (arrayStride b, map (\<lambda>a. (shaderLocation a, format a, offset a)) (attributes b))) bufs2
    \<longrightarrow> (let (res1, st1) = createLayout (run before new_cache) bufs1 topo indexFormat;
              (res2, st3) = createLayout (run between st1) bufs2 topo indexFormat
          in \<exists>r i. res1 = Some r \<and> res2 = Some r \<and> id_of st1 res1 = Some i \<and> id_of st3 res2 = Some i))
   \<and> (let st = run ops new_cache
      in cache st i1 = Some r1 \<and> cache st i2 = Some r2 \<and> heap st r1 = Some o1 \<and> heap st r2 = Some o2
         \<and> fst (serializeToString o1) = fst (serializeToString o2)
         \<longrightarrow> r1 = r2 \<and> i1 = i2 \<and> layout_id o1 = Some i1 \<and> layout_id o2 = Some i1)
   \<and> (let (res, st') = createLayout (run before new_cache) bufs1 topo indexFormat
      in \<exists>r obj. res = Some r \<and> heap st' r = Some obj
           \<and> fst (serializeToString obj)
               = concat (map Uint8ToHex (encodeLayout
                   (GeometryLayout_new (copyBuffers bufs1) (Some topo)
                      (case indexFormat of None \<Rightarrow> index_uint32 | Some f \<Rightarrow> f)))))"
proof (intro conjI impI)
  assume eq: "map (\<lambda>b. (arrayStride b, map (\<lambda>a. (shaderLocation a, format a, offset a)) (attributes b))) bufs1
      = map (\<lambda>b. (arrayStride b, map (\<lambda>a. (shaderLocation a, format a, offset a)) (attributes b))) bufs2"
  obtain res1 st1 where c1: "createLayout (run before new_cache) bufs1 topo indexFormat = (res1, st1)"
    by (cases "createLayout (run before new_cache) bufs1 topo indexFormat")
  obtain res2 st3 where c2: "createLayout (run between st1) bufs2 topo indexFormat = (res2, st3)"
    by (cases "createLayout (run between st1) bufs2 topo indexFormat")
  have inv: "cache_inv (run before new_cache)" using run_inv [OF cache_inv_new] by blast
  have "\<exists>r i. res1 = Some r \<and> res2 = Some r \<and> id_of st1 res1 = Some i \<and> id_of st3 res2 = Some i"
    by (rule dedup_calls [OF copyBuffers_structural [OF eq] inv c1 c2])
  then show "let (res1, st1) = createLayout (run before new_cache) bufs1 topo indexFormat;
              (res2, st3) = createLayout (run between st1) bufs2 topo indexFormat
          in \<exists>r i. res1 = Some r \<and> res2 = Some r \<and> id_of st1 res1 = Some i \<and> id_of st3 res2 = Some i"
    by (simp add: c1 c2)
next
  have inv: "cache_inv (run ops new_cache)" using run_inv [OF cache_inv_new] by blast
  show "let st = run ops new_cache
      in cache st i1 = Some r1 \<and> cache st i2 = Some r2 \<and> heap st r1 = Some o1 \<and> heap st r2 = Some o2
         \<and> fst (serializeToString o1) = fst (serializeToString o2)
         \<longrightarrow> r1 = r2 \<and> i1 = i2 \<and> layout_id o1 = Some i1 \<and> layout_id o2 = Some i1"
    unfolding Let_def
  proof (intro impI, elim conjE)
    assume a: "cache (run ops new_cache) i1 = Some r1" "cache (run ops new_cache) i2 = Some r2"
      "heap (run ops new_cache) r1 = Some o1" "heap (run ops new_cache) r2 = Some o2"
      "fst (serializeToString o1) = fst (serializeToString o2)"
    note k1 = registered_key [OF inv a(1) a(3)]
    note k2 = registered_key [OF inv a(2) a(4)]
    have "i1 = i2" using k1 k2 a(5) by simp
    then show "r1 = r2 \<and> i1 = i2 \<and> layout_id o1 = Some i1 \<and> layout_id o2 = Some i1"
      using a k1 k2 by simp
  qed
next
  obtain res st' where c: "createLayout (run before new_cache) bufs1 topo indexFormat = (res, st')"
    by (cases "createLayout (run before new_cache) bufs1 topo indexFormat")
  have inv: "cache_inv (run before new_cache)" using run_inv [OF cache_inv_new] by blast
  show "let (res, st') = createLayout (run before new_cache) bufs1 topo indexFormat
      in \<exists>r obj. res = Some r \<and> heap st' r = Some obj
           \<and> fst (serializeToString obj)
               = concat (map Uint8ToHex (encodeLayout
                   (GeometryLayout_new (copyBuffers bufs1) (Some topo)
                      (case indexFormat of None \<Rightarrow> index_uint32 | Some f \<Rightarrow> f))))"
    using createLayout_key [OF inv c] by (simp add: c)
qed

theorem createLayout_dedup_witness:
  "fst (createLayout (snd (createLayout new_cache instanced_buffer triangle_list None))
          plain_buffer triangle_list None)
     = fst (createLayout new_cache instanced_buffer triangle_list None)
   \<and> fst (createLayout new_cache instanced_buffer triangle_list None) = Some 0
   \<and> cache (run [CreateLayout instanced_buffer triangle_list None] new_cache) 1 = Some 0
   \<and> map_option layout_id (heap (run [CreateLayout instanced_buffer triangle_list None] new_cache) 0)
       = Some (Some 1)"
proof -
  let ?st = "run [CreateLayout instanced_buffer triangle_list None] new_cache"
  obtain obj where h: "heap ?st 0 = Some obj"
    by (simp add: instanced_buffer_def run_defs)
  have c: "cache ?st 1 = Some 0"
    by (simp add: instanced_buffer_def run_defs)
  have f: "fst (createLayout new_cache instanced_buffer triangle_list None) = Some 0"
    by (simp add: instanced_buffer_def run_defs)
  note T = createLayout_dedup [of instanced_buffer plain_buffer "[]" triangle_list None "[]"
             "[CreateLayout instanced_buffer triangle_list None]" 1 0 1 0 obj obj]
  have e: "map (\<lambda>b. (arrayStride b, map (\<lambda>a. (shaderLocation a, format a, offset a)) (attributes b))) instanced_buffer
      = map (\<lambda>b. (arrayStride b, map (\<lambda>a. (shaderLocation a, format a, offset a)) (attributes b))) plain_buffer"
    by (simp add: instanced_buffer_def plain_buffer_def)
  from T [THEN conjunct1] e
  have "let (res1, st1) = createLayout (run [] new_cache) instanced_buffer triangle_list None;
              (res2, st3) = createLayout (run [] st1) plain_buffer triangle_list None
          in \<exists>r i. res1 = Some r \<and> res2 = Some r \<and> id_of st1 res1 = Some i \<and> id_of st3 res2 = Some i"
    by blast
  then have a: "fst (createLayout (snd (createLayout new_cache instanced_buffer triangle_list None))
          plain_buffer triangle_list None)
     = fst (createLayout new_cache instanced_buffer triangle_list None)"
    by (auto simp: split_beta)
  from T [THEN conjunct2, THEN conjunct1] h c
  have "layout_id obj = Some 1" unfolding Let_def by blast
  then show ?thesis using a f c h by simp
qed

text \<open>
  Claim C10 (the copy omits stepMode): the buffers that \<open>createLayout\<close> builds carry no
  \<open>stepMode\<close>, whatever the caller's buffers say, and they are encoded as buffers that
  say \<open>vertex\<close> are; whenever the call registers a layout, that is the object it returns.
\<close>

theorem createLayout_omits_stepMode:
  "map stepMode (copyBuffers attribBuffers) = replicate (length attribBuffers) None
   \<and> encodeLayout (GeometryLayout_new (copyBuffers attribBuffers) (Some topo) fmt)
       = encodeLayout (GeometryLayout_new
           (map (\<lambda>b. \<lparr> arrayStride = arrayStride b, stepMode = Some step_vertex,
                        attributes = attributes b \<rparr>) attribBuffers) (Some topo) fmt)
   \<and> (let st = run ops new_cache;
          (res, st') = createLayout st attribBuffers topo indexFormat
      in nextId st' \<noteq> nextId st \<longrightarrow>
         (\<exists>r obj. res = Some r \<and> heap st' r = Some obj \<and> layout_id obj = Some (nextId st)
            \<and> map stepMode (buffers obj) = replicate (length attribBuffers) None
            \<and> serializedBuffer obj = Some (encodeLayout (GeometryLayout_new
                 (map (\<lambda>b. \<lparr> arrayStride = arrayStride b, stepMode = Some step_vertex,
                              attributes = attributes b \<rparr>) attribBuffers) (Some topo)
                 (case indexFormat of None \<Rightarrow> index_uint32 | Some f \<Rightarrow> f)))))"
proof -
  have m: "map stepMode (copyBuffers attribBuffers) = replicate (length attribBuffers) None"
    by (induction attribBuffers) (simp_all add: copyBuffers_def)
  have ca: "\<And>as. map copyAttrib as = as"
    by (simp add: copyAttrib_def map_idI)
  have eb: "map encodeBuffer (copyBuffers attribBuffers)
      = map encodeBuffer (map (\<lambda>b. \<lparr> arrayStride = arrayStride b, stepMode = Some step_vertex,
                        attributes = attributes b \<rparr>) attribBuffers)"
    by (simp add: copyBuffers_def encodeBuffer_def ca)
  have e: "\<And>f. encodeLayout (GeometryLayout_new (copyBuffers attribBuffers) (Some topo) f)
       = encodeLayout (GeometryLayout_new
           (map (\<lambda>b. \<lparr> arrayStride = arrayStride b, stepMode = Some step_vertex,
                        attributes = attributes b \<rparr>) attribBuffers) (Some topo) f)"
    by (simp add: encodeLayout_def GeometryLayout_new_def eb)
  have inv: "cache_inv (run ops new_cache)" using run_inv [OF cache_inv_new] by blast
  obtain res st' where c: "createLayout (run ops new_cache) attribBuffers topo indexFormat = (res, st')"
    by (cases "createLayout (run ops new_cache) attribBuffers topo indexFormat")
  have "nextId st' \<noteq> nextId (run ops new_cache) \<longrightarrow>
         (\<exists>r obj. res = Some r \<and> heap st' r = Some obj \<and> layout_id obj = Some (nextId (run ops new_cache))
            \<and> map stepMode (buffers obj) = replicate (length attribBuffers) None
            \<and> serializedBuffer obj = Some (encodeLayout (GeometryLayout_new
                 (map (\<lambda>b. \<lparr> arrayStride = arrayStride b, stepMode = Some step_vertex,
                              attributes = attributes b \<rparr>) attribBuffers) (Some topo)
                 (case indexFormat of None \<Rightarrow> index_uint32 | Some f \<Rightarrow> f))))"
    using createLayout_inv(3) [OF inv c] m e
    by (cases "keyMap (run ops new_cache) (layoutKey attribBuffers topo indexFormat)") auto
  then show ?thesis using m e c by (simp add: Let_def)
qed

theorem createLayout_omits_stepMode_witness:
  "nextId (snd (createLayout new_cache instanced_buffer triangle_list None)) \<noteq> nextId new_cache
   \<and> (\<exists>r obj. fst (createLayout new_cache instanced_buffer triangle_list None) = Some r
         \<and> heap (snd (createLayout new_cache instanced_buffer triangle_list None)) r = Some obj
         \<and> layout_id obj = Some (nextId new_cache)
         \<and> map stepMode (buffers obj) = [None]
         \<and> serializedBuffer obj = Some [4, 193, 0, 0, 0, 20])"
proof -
  have n: "nextId (snd (createLayout new_cache instanced_buffer triangle_list None)) \<noteq> nextId new_cache"
    by (simp add: instanced_buffer_def run_defs)
  have enc: "encodeLayout (GeometryLayout_new
                 (map (\<lambda>b. \<lparr> arrayStride = arrayStride b, stepMode = Some step_vertex,
                              attributes = attributes b \<rparr>) instanced_buffer) (Some triangle_list)
                 index_uint32) = [4, 193, 0, 0, 0, 20]"
    by (simp add: instanced_buffer_def encode_defs)
  note T = createLayout_omits_stepMode [of instanced_buffer triangle_list index_uint32 "[]" None]
  then have "\<exists>r obj. fst (createLayout new_cache instanced_buffer triangle_list None) = Some r
         \<and> heap (snd (createLayout new_cache instanced_buffer triangle_list None)) r = Some obj
         \<and> layout_id obj = Some (nextId new_cache)
         \<and> map stepMode (buffers obj) = [None]
         \<and> serializedBuffer obj = Some [4, 193, 0, 0, 0, 20]"
    using n enc
    by (simp add: Let_def split_beta instanced_buffer_def [THEN arg_cong, of length])
  then show ?thesis by (rule conjI [OF n])
qed

section \<open>Properties of the normalizer\<close>

lemma attributes_pushLayout [simp]:
  "attributes (pushLayout b m s attrs) = sort_key shaderLocation attrs"
  "buffer (pushLayout b m s attrs) = b"
  "bufferOffset (pushLayout b m s attrs) = Some m"
  "arrayStride (pushLayout b m s attrs) = s"
  by (simp_all add: pushLayout_def)

lemma sort_key_Nil_iff: "sort_key f xs = [] \<longleftrightarrow> xs = []"
  by (metis length_sort length_0_conv)

lemma splitAttribs_sorted:
  "l \<in> set (splitAttribs b s m attrs as) \<Longrightarrow> sorted (map shaderLocation (attributes l))"
  by (induction as arbitrary: m attrs) (auto simp: Let_def split: if_splits)

lemma splitAttribs_nonempty:
  "attrs \<noteq> [] \<Longrightarrow> l \<in> set (splitAttribs b s m attrs as) \<Longrightarrow> attributes l \<noteq> []"
  by (induction as arbitrary: m attrs) (auto simp: Let_def sort_key_Nil_iff split: if_splits)

lemma splitAttribs_not_Nil: "splitAttribs b s m attrs as \<noteq> []"
  by (induction as arbitrary: m attrs) (auto simp: Let_def)

lemma has_empty_append [simp]: "has_empty (xs @ ys) \<longleftrightarrow> has_empty xs \<or> has_empty ys"
  by (simp add: has_empty_def)

lemma has_empty_Nil [simp]: "\<not> has_empty []"
  by (simp add: has_empty_def)

lemma normalizeGroup_shape:
  assumes "as \<noteq> []"
  shows "\<exists>ls. normalizeGroup b s as = Inr ls \<and> ls \<noteq> []
           \<and> (has_empty ls \<longleftrightarrow> s = 0) \<and> (has_empty ls \<longrightarrow> 2 \<le> length ls)
           \<and> (\<forall>l\<in>set ls. sorted (map shaderLocation (attributes l)))"
proof -
  obtain a rest where sa: "sort_key offset as = a # rest"
    using assms by (cases "sort_key offset as") (auto simp: sort_key_Nil_iff)
  let ?a0 = "\<lparr> shaderLocation = shaderLocation a, format = format a, offset = 0 \<rparr>"
  have ng: "normalizeGroup b s as = Inr (splitAttribs b s (offset a) [] (a # rest))"
    by (simp add: normalizeGroup_def sa)
  have srt: "\<forall>l\<in>set (splitAttribs b s (offset a) [] (a # rest)). sorted (map shaderLocation (attributes l))"
    by (intro ballI) (rule splitAttribs_sorted)
  have ne: "\<And>l. l \<in> set (splitAttribs b s (offset a) [?a0] rest) \<Longrightarrow> attributes l \<noteq> []"
  proof -
    fix l assume "l \<in> set (splitAttribs b s (offset a) [?a0] rest)"
    then show "attributes l \<noteq> []"
      using splitAttribs_nonempty [of "[?a0]" l b s "offset a" rest] by simp
  qed
  show ?thesis
  proof (cases "s = 0")
    case True
    then have sp: "splitAttribs b s (offset a) [] (a # rest)
        = pushLayout b (offset a) s [] # splitAttribs b s (offset a) [?a0] rest"
      by simp
    have "\<not> has_empty (splitAttribs b s (offset a) [?a0] rest)"
      using ne by (auto simp: has_empty_def list_ex_iff)
    moreover have "splitAttribs b s (offset a) [?a0] rest \<noteq> []" by (rule splitAttribs_not_Nil)
    then have "2 \<le> length (splitAttribs b s (offset a) [] (a # rest))"
      unfolding sp by (cases "splitAttribs b s (offset a) [?a0] rest") simp_all
    ultimately show ?thesis using ng srt True sp by (auto simp: has_empty_def)
  next
    case False
    then have sp: "splitAttribs b s (offset a) [] (a # rest) = splitAttribs b s (offset a) [?a0] rest"
      by simp
    have "\<not> has_empty (splitAttribs b s (offset a) [?a0] rest)"
      using ne by (auto simp: has_empty_def list_ex_iff)
    then show ?thesis
      using ng srt False sp splitAttribs_not_Nil [of b s "offset a" "[?a0]" rest] by auto
  qed
qed

lemma normalizeStrides_shape:
  assumes "\<forall>(s, as)\<in>set sm. as \<noteq> []"
  shows "\<exists>ls. normalizeStrides b sm = Inr ls
           \<and> (has_empty ls \<longleftrightarrow> 0 \<in> fst ` set sm) \<and> (has_empty ls \<longrightarrow> 2 \<le> length ls)
           \<and> (sm \<noteq> [] \<longrightarrow> ls \<noteq> [])
           \<and> (\<forall>l\<in>set ls. sorted (map shaderLocation (attributes l)))"
  using assms
proof (induction sm)
  case Nil
  then show ?case by simp
next
  case (Cons p sm)
  obtain s as where p: "p = (s, as)" by (cases p)
  then have "as \<noteq> []" using Cons.prems by simp
  from normalizeGroup_shape [OF this, of b s]
  obtain ls where g: "normalizeGroup b s as = Inr ls" "ls \<noteq> []" "has_empty ls \<longleftrightarrow> s = 0"
      "has_empty ls \<longrightarrow> 2 \<le> length ls" "\<forall>l\<in>set ls. sorted (map shaderLocation (attributes l))"
    by blast
  from Cons obtain ls' where r: "normalizeStrides b sm = Inr ls'"
      "has_empty ls' \<longleftrightarrow> 0 \<in> fst ` set sm" "has_empty ls' \<longrightarrow> 2 \<le> length ls'"
      "\<forall>l\<in>set ls'. sorted (map shaderLocation (attributes l))"
    by auto
  have "normalizeStrides b (p # sm) = Inr (ls @ ls')" using p g(1) r(1) by simp
  moreover have "has_empty (ls @ ls') \<longleftrightarrow> 0 \<in> fst ` set (p # sm)" using p g(3) r(2) by auto
  moreover have "has_empty (ls @ ls') \<longrightarrow> 2 \<le> length (ls @ ls')" using g(4) r(3) by auto
  moreover have "ls @ ls' \<noteq> []" using g(2) by simp
  moreover have "\<forall>l\<in>set (ls @ ls'). sorted (map shaderLocation (attributes l))" using g(5) r(4) by auto
  ultimately show ?case by blast
qed

lemma normalizeBuffers_shape:
  assumes "groups_nonempty m"
  shows "\<exists>ls. normalizeBuffers m = Inr ls
           \<and> (has_empty ls \<longleftrightarrow> 0 \<in> group_strides m) \<and> (has_empty ls \<longrightarrow> 2 \<le> length ls)
           \<and> (\<forall>l\<in>set ls. sorted (map shaderLocation (attributes l)))"
  using assms
proof (induction m)
  case Nil
  then show ?case by (simp add: group_strides_def)
next
  case (Cons p m)
  obtain b sm where p: "p = (b, sm)" by (cases p)
  then have "\<forall>(s, as)\<in>set sm. as \<noteq> []" using Cons.prems by (auto simp: groups_nonempty_def)
  from normalizeStrides_shape [OF this, of b]
  obtain ls where g: "normalizeStrides b sm = Inr ls" "has_empty ls \<longleftrightarrow> 0 \<in> fst ` set sm"
      "has_empty ls \<longrightarrow> 2 \<le> length ls" "\<forall>l\<in>set ls. sorted (map shaderLocation (attributes l))"
    by blast
  have "groups_nonempty m" using Cons.prems by (simp add: groups_nonempty_def)
  with Cons.IH obtain ls' where r: "normalizeBuffers m = Inr ls'"
      "has_empty ls' \<longleftrightarrow> 0 \<in> group_strides m" "has_empty ls' \<longrightarrow> 2 \<le> length ls'"
      "\<forall>l\<in>set ls'. sorted (map shaderLocation (attributes l))"
    by auto
  have "normalizeBuffers (p # m) = Inr (ls @ ls')" using p g(1) r(1) by simp
  moreover have "has_empty (ls @ ls') \<longleftrightarrow> 0 \<in> group_strides (p # m)"
    using p g(2) r(2) by (auto simp: group_strides_def)
  moreover have "has_empty (ls @ ls') \<longrightarrow> 2 \<le> length (ls @ ls')" using g(3) r(3) by auto
  moreover have "\<forall>l\<in>set (ls @ ls'). sorted (map shaderLocation (attributes l))" using g(4) r(4) by auto
  ultimately show ?case by blast
qed

lemma set_getOrCreate_pred:
  "\<forall>p\<in>set m. P p \<Longrightarrow> (\<And>v. P (k, v) \<Longrightarrow> P (k, f v)) \<Longrightarrow> P (k, f d)
     \<Longrightarrow> \<forall>p\<in>set (getOrCreate k d f m). P p"
  by (induction k d f m rule: getOrCreate.induct) auto

lemma fst_getOrCreate: "fst ` set (getOrCreate k d f m) = insert k (fst ` set m)"
  by (induction k d f m rule: getOrCreate.induct) auto

lemma absoluteAttribs_Nil_iff: "absoluteAttribs l = [] \<longleftrightarrow> attributes l = []"
  by (simp add: absoluteAttribs_def)

lemma groups_nonempty_step:
  assumes "groups_nonempty m" and "new \<noteq> []"
  shows "groups_nonempty (getOrCreate b [] (getOrCreate s [] (\<lambda>v. v @ new)) m)"
proof -
  let ?P = "\<lambda>(b :: 'a, sm :: (nat \<times> GPUVertexAttribute list) list). \<forall>(s, as)\<in>set sm. as \<noteq> []"
  have inner: "\<And>sm. ?P (b, sm) \<Longrightarrow> ?P (b, getOrCreate s [] (\<lambda>v. v @ new) sm)"
  proof -
    fix sm :: "(nat \<times> GPUVertexAttribute list) list"
    assume "?P (b, sm)"
    then have "\<forall>p\<in>set sm. snd p \<noteq> []" by auto
    then have "\<forall>p\<in>set (getOrCreate s [] (\<lambda>v. v @ new) sm). snd p \<noteq> []"
      using assms(2)
      by (intro set_getOrCreate_pred [where P = "\<lambda>p. snd p \<noteq> []" and f = "\<lambda>v. v @ new"]) simp_all
    then show "?P (b, getOrCreate s [] (\<lambda>v. v @ new) sm)" by auto
  qed
  have "\<forall>p\<in>set m. ?P p" using assms(1) by (simp add: groups_nonempty_def)
  then have "\<forall>p\<in>set (getOrCreate b [] (getOrCreate s [] (\<lambda>v. v @ new)) m). ?P p"
    using inner assms(2)
    by (intro set_getOrCreate_pred [where P = "?P" and f = "getOrCreate s [] (\<lambda>v. v @ new)"]) simp_all
  then show ?thesis by (simp add: groups_nonempty_def)
qed

lemma group_strides_step:
  "group_strides (getOrCreate b [] (getOrCreate s [] f) m) = insert s (group_strides m)"
proof (induction m)
  case Nil
  then show ?case by (simp add: group_strides_def)
next
  case (Cons p m)
  obtain b' sm where p: "p = (b', sm)" by (cases p)
  show ?case
  proof (cases "b' = b")
    case True
    then show ?thesis using p by (auto simp: group_strides_def fst_getOrCreate)
  next
    case False
    then have "group_strides (getOrCreate b [] (getOrCreate s [] f) (p # m))
        = fst ` set sm \<union> group_strides (getOrCreate b [] (getOrCreate s [] f) m)"
      using p by (simp add: group_strides_def)
    then show ?thesis using Cons.IH p by (auto simp: group_strides_def)
  qed
qed

lemma groupByBufferStride_shape:
  "groups_nonempty m \<Longrightarrow>
     groups_nonempty (groupByBufferStride xs m)
     \<and> group_strides (groupByBufferStride xs m)
         = group_strides m \<union> arrayStride ` {l \<in> set xs. attributes l \<noteq> []}"
proof (induction xs arbitrary: m)
  case Nil
  then show ?case by simp
next
  case (Cons l xs)
  show ?case
  proof (cases "attributes l = []")
    case True
    then show ?thesis using Cons by auto
  next
    case False
    let ?m' = "getOrCreate (buffer l) []
                (getOrCreate (arrayStride l) [] (\<lambda>strideAttribs. strideAttribs @ absoluteAttribs l)) m"
    have ne: "groups_nonempty ?m'"
      using groups_nonempty_step [OF Cons.prems] False by (simp add: absoluteAttribs_Nil_iff)
    have st: "group_strides ?m' = insert (arrayStride l) (group_strides m)"
      by (rule group_strides_step)
    have "groupByBufferStride (l # xs) m = groupByBufferStride xs ?m'" using False by simp
    then show ?thesis using Cons.IH [OF ne] st False by auto
  qed
qed

lemma groupByBufferStride_filter:
  "groupByBufferStride (filter (\<lambda>l. attributes l \<noteq> []) xs) m = groupByBufferStride xs m"
  by (induction xs arbitrary: m) simp_all

lemmas normalize_defs = NormalizeBufferLayout_def sortLayouts_def normalizeGroup_def pushLayout_def
  absoluteAttribs_def Let_def

lemma normalize_two_handles: "NormalizeBufferLayout two_handles = Inr two_handles_normalized"
  by (simp add: two_handles_def two_handles_normalized_def normalize_defs)

text \<open>
  Claim C7 (ordering), refuted as stated: the bindings are not ordered by the location of
  their lowest-offset attribute.  Locations 5 (offset 0) and 1 (offset 8) share a buffer,
  location 3 has its own; the shared binding comes first, and its lowest-offset attribute
  has location 5.
\<close>

theorem not_sorted_by_lowest_offset_attribute:
  "NormalizeBufferLayout two_handles = Inr two_handles_normalized
   \<and> map (\<lambda>l. shaderLocation (hd (sort_key offset (attributes l)))) two_handles_normalized = [5, 3]
   \<and> \<not> sorted (map (\<lambda>l. shaderLocation (hd (sort_key offset (attributes l)))) two_handles_normalized)"
  by (simp add: normalize_two_handles) (simp add: two_handles_normalized_def)

lemma sortLayouts_Inr:
  assumes "sortLayouts ls = Inr ys" and "has_empty ls \<longrightarrow> 2 \<le> length ls"
  shows "\<not> has_empty ls" and "ys = sort_key (\<lambda>l. shaderLocation (hd (attributes l))) ls"
  using assms by (auto simp: sortLayouts_def has_empty_def split: if_splits)

lemma sortLayouts_no_empty:
  "\<not> has_empty ls \<Longrightarrow> sortLayouts ls = Inr (sort_key (\<lambda>l. shaderLocation (hd (attributes l))) ls)"
  by (simp add: sortLayouts_def has_empty_def)

lemma sorted_hd_le:
  "sorted (map f xs) \<Longrightarrow> a \<in> set xs \<Longrightarrow> f (hd xs) \<le> f a"
  by (cases xs) auto

text \<open>
  Claim C7 as amended: whenever \<open>NormalizeBufferLayout\<close> returns, and it does whenever no
  entry with attributes has stride 0, every binding has attributes, sorted ascending by
  \<open>shaderLocation\<close>, and the bindings are sorted ascending by the location of their first
  attribute in that order, which is the lowest location of the binding.  Entries without
  attributes make no difference to the result.
\<close>

theorem NormalizeBufferLayout_sorted:
  "(NormalizeBufferLayout xs = Inr ys \<longrightarrow>
      (\<forall>l\<in>set ys. attributes l \<noteq> [] \<and> sorted (map shaderLocation (attributes l))
         \<and> (\<forall>a\<in>set (attributes l). shaderLocation (hd (attributes l)) \<le> shaderLocation a))
      \<and> sorted (map (\<lambda>l. shaderLocation (hd (attributes l))) ys))
   \<and> (\<not> (\<exists>l\<in>set xs. attributes l \<noteq> [] \<and> arrayStride l = 0)
        \<longrightarrow> (\<exists>ys. NormalizeBufferLayout xs = Inr ys))
   \<and> NormalizeBufferLayout (filter (\<lambda>l. attributes l \<noteq> []) xs) = NormalizeBufferLayout xs"
proof (intro conjI impI)
  have g0: "groups_nonempty ([] :: ('a \<times> (nat \<times> GPUVertexAttribute list) list) list)"
    by (simp add: groups_nonempty_def)
  let ?m = "groupByBufferStride xs []"
  note gs = groupByBufferStride_shape [OF g0, of xs]
  obtain ls where ls: "normalizeBuffers ?m = Inr ls" "has_empty ls \<longleftrightarrow> 0 \<in> group_strides ?m"
      "has_empty ls \<longrightarrow> 2 \<le> length ls" "\<forall>l\<in>set ls. sorted (map shaderLocation (attributes l))"
    using normalizeBuffers_shape [of ?m] gs by blast
  have n: "NormalizeBufferLayout xs = sortLayouts ls"
    by (simp add: NormalizeBufferLayout_def ls(1))
  {
    assume r: "NormalizeBufferLayout xs = Inr ys"
    then have s: "sortLayouts ls = Inr ys" using n by simp
    note so = sortLayouts_Inr [OF s ls(3)]
    have set: "set ys = set ls" using so(2) by simp
    show "\<forall>l\<in>set ys. attributes l \<noteq> [] \<and> sorted (map shaderLocation (attributes l))
         \<and> (\<forall>a\<in>set (attributes l). shaderLocation (hd (attributes l)) \<le> shaderLocation a)"
    proof
      fix l assume "l \<in> set ys"
      then have l: "l \<in> set ls" using set by simp
      then have "attributes l \<noteq> []" using so(1) by (auto simp: has_empty_def list_ex_iff)
      moreover have "sorted (map shaderLocation (attributes l))" using ls(4) l by blast
      ultimately show "attributes l \<noteq> [] \<and> sorted (map shaderLocation (attributes l))
         \<and> (\<forall>a\<in>set (attributes l). shaderLocation (hd (attributes l)) \<le> shaderLocation a)"
        using sorted_hd_le [of shaderLocation "attributes l"] by auto
    qed
    show "sorted (map (\<lambda>l. shaderLocation (hd (attributes l))) ys)"
      unfolding so(2) by (rule sorted_sort_key)
  }
  {
    assume "\<not> (\<exists>l\<in>set xs. attributes l \<noteq> [] \<and> arrayStride l = 0)"
    then have "0 \<notin> group_strides ?m" using gs by (auto simp: group_strides_def)
    then have "\<not> has_empty ls" using ls(2) by simp
    then show "\<exists>ys. NormalizeBufferLayout xs = Inr ys" using n sortLayouts_no_empty by auto
  }
  show "NormalizeBufferLayout (filter (\<lambda>l. attributes l \<noteq> []) xs) = NormalizeBufferLayout xs"
    by (simp add: NormalizeBufferLayout_def groupByBufferStride_filter)
qed

theorem NormalizeBufferLayout_sorted_witness:
  "NormalizeBufferLayout two_handles = Inr two_handles_normalized
   \<and> sorted (map (\<lambda>l. shaderLocation (hd (attributes l))) two_handles_normalized)
   \<and> \<not> (\<exists>l\<in>set two_handles. attributes l \<noteq> [] \<and> arrayStride l = 0)
   \<and> (\<exists>ys. NormalizeBufferLayout two_handles = Inr ys)"
proof -
  note T = NormalizeBufferLayout_sorted [of two_handles two_handles_normalized]
  have p: "\<not> (\<exists>l\<in>set two_handles. attributes l \<noteq> [] \<and> arrayStride l = 0)"
    by (simp add: two_handles_def)
  from T normalize_two_handles
  have "sorted (map (\<lambda>l. shaderLocation (hd (attributes l))) two_handles_normalized)" by blast
  moreover from T p have "\<exists>ys. NormalizeBufferLayout two_handles = Inr ys" by blast
  ultimately show ?thesis using normalize_two_handles p by blast
qed

lemma splitAttribs_no_split:
  "\<forall>a\<in>set as. offset a - m < s \<Longrightarrow>
     splitAttribs b s m attrs as = [pushLayout b m s (attrs @ map (rebase m) as)]"
  by (induction as arbitrary: attrs) (simp_all add: Let_def rebase_def)

lemma splitAttribs_split:
  assumes "\<forall>p\<in>set pre. offset p - m < s" and "s \<le> offset a - m"
  shows "splitAttribs b s m attrs (pre @ a # post)
     = pushLayout b m s (attrs @ map (rebase m) pre)
       # splitAttribs b s (offset a) [rebase (offset a) a] post"
  using assms(1)
proof (induction pre arbitrary: attrs)
  case Nil
  then show ?case using assms(2) by (simp add: Let_def rebase_def)
next
  case (Cons p pre)
  then show ?case by (simp add: Let_def rebase_def)
qed

lemma splitAttribs_restart:
  "0 < s \<Longrightarrow> splitAttribs b s (offset a) [] (a # post)
             = splitAttribs b s (offset a) [rebase (offset a) a] post"
  by (simp add: Let_def rebase_def)

lemma groupByBufferStride_uniform:
  assumes "\<forall>l\<in>set xs. buffer l = h \<and> arrayStride l = s \<and> attributes l \<noteq> []"
  shows "groupByBufferStride xs [(h, [(s, acc)])] = [(h, [(s, acc @ concat (map absoluteAttribs xs))])]"
  using assms by (induction xs arbitrary: acc) simp_all

lemma groupByBufferStride_uniform0:
  assumes "xs \<noteq> []" and "\<forall>l\<in>set xs. buffer l = h \<and> arrayStride l = s \<and> attributes l \<noteq> []"
  shows "groupByBufferStride xs [] = [(h, [(s, concat (map absoluteAttribs xs))])]"
proof -
  obtain x rest where x: "xs = x # rest" using assms(1) by (cases xs) auto
  then have "groupByBufferStride xs [] = groupByBufferStride rest [(h, [(s, absoluteAttribs x)])]"
    using assms(2) by simp
  also have "\<dots> = [(h, [(s, absoluteAttribs x @ concat (map absoluteAttribs rest))])]"
    using assms(2) x by (intro groupByBufferStride_uniform) simp
  finally show ?thesis using x by simp
qed

lemma sort_key_hd_least:
  assumes "as \<noteq> []" and "m \<in> f ` set as" and "\<forall>a\<in>set as. (m::nat) \<le> f a"
  shows "f (hd (sort_key f as)) = m"
proof -
  obtain a rest where sa: "sort_key f as = a # rest"
    using assms(1) by (cases "sort_key f as") (auto simp: sort_key_Nil_iff)
  have "sorted (map f (a # rest))" using sorted_sort_key [of f as] sa by simp
  then have le: "\<forall>x\<in>set (a # rest). f a \<le> f x" by auto
  have set: "set (a # rest) = set as" using sa set_sort [of f as] by simp
  then obtain x where "x \<in> set (a # rest)" "f x = m" using assms(2) by auto
  then have "f a \<le> m" using le by auto
  moreover have "m \<le> f a" using assms(3) set by auto
  ultimately show ?thesis using sa by simp
qed

lemma normalize_single_group:
  assumes xs: "xs \<noteq> []" "\<forall>l\<in>set xs. buffer l = h \<and> arrayStride l = s \<and> attributes l \<noteq> []"
  shows "NormalizeBufferLayout xs
     = (case normalizeGroup h s (concat (map absoluteAttribs xs)) of
          Inl e \<Rightarrow> Inl e | Inr ls \<Rightarrow> sortLayouts ls)"
  by (simp add: NormalizeBufferLayout_def groupByBufferStride_uniform0 [OF xs] split: sum.splits)

lemma merge_group:
  assumes m: "m \<in> offset ` set as"
    and w: "\<forall>a\<in>set as. m \<le> offset a \<and> offset a < m + s"
  shows "normalizeGroup h s as = Inr [pushLayout h m s (map (rebase m) (sort_key offset as))]"
proof -
  have ne: "as \<noteq> []" using m by auto
  then obtain a rest where sa: "sort_key offset as = a # rest"
    by (cases "sort_key offset as") (auto simp: sort_key_Nil_iff)
  have "offset (hd (sort_key offset as)) = m"
    using sort_key_hd_least [OF ne m] w by blast
  then have oa: "offset a = m" using sa by simp
  have set: "set (a # rest) = set as" by (simp only: sa [symmetric] set_sort)
  have "\<forall>x\<in>set (a # rest). offset x - m < s"
  proof
    fix x assume "x \<in> set (a # rest)"
    then have "x \<in> set as" by (simp only: set)
    then show "offset x - m < s" using w by fastforce
  qed
  then have "splitAttribs h s m [] (a # rest) = [pushLayout h m s ([] @ map (rebase m) (a # rest))]"
    by (rule splitAttribs_no_split)
  then show ?thesis
    using sa oa by (simp add: normalizeGroup_def)
qed

lemma merge_general:
  assumes xs: "xs \<noteq> []" "\<forall>l\<in>set xs. buffer l = h \<and> arrayStride l = s \<and> attributes l \<noteq> []"
    and m: "m \<in> offset ` set (concat (map absoluteAttribs xs))"
    and w: "\<forall>a\<in>set (concat (map absoluteAttribs xs)). m \<le> offset a \<and> offset a < m + s"
  shows "NormalizeBufferLayout xs
     = Inr [\<lparr> arrayStride = s, stepMode = None,
              attributes = sort_key shaderLocation
                 (map (rebase m) (sort_key offset (concat (map absoluteAttribs xs)))),
              buffer = h, bufferOffset = Some m \<rparr>]"
  unfolding normalize_single_group [OF xs] merge_group [OF m w]
  by (simp add: sortLayouts_def pushLayout_def)

lemmas entry_defs = bufferEntry_def attribAt_def

text \<open>
  Claim C6 (merge and split), refuted as stated: with stride 12 the two entries at
  offsets 0 and 12 give two bindings, not one; and with stride 16 and offsets 0 and 20
  the binding at 20 comes first when its attribute has the lower shader location.
\<close>

theorem merge_split_scenarios_fail:
  "NormalizeBufferLayout
      [bufferEntry (7::nat) 12 [attribAt 0 float32x3 0], bufferEntry 7 12 [attribAt 1 float32x3 12]]
     = Inr [\<lparr> arrayStride = 12, stepMode = None, attributes = [attribAt 0 float32x3 0],
              buffer = 7, bufferOffset = Some 0 \<rparr>,
            \<lparr> arrayStride = 12, stepMode = None, attributes = [attribAt 1 float32x3 0],
              buffer = 7, bufferOffset = Some 12 \<rparr>]
   \<and> NormalizeBufferLayout
      [bufferEntry (7::nat) 16 [attribAt 1 float32x3 0], bufferEntry 7 16 [attribAt 0 float32x3 20]]
     = Inr [\<lparr> arrayStride = 16, stepMode = None, attributes = [attribAt 0 float32x3 0],
              buffer = 7, bufferOffset = Some 20 \<rparr>,
            \<lparr> arrayStride = 16, stepMode = None, attributes = [attribAt 1 float32x3 0],
              buffer = 7, bufferOffset = Some 0 \<rparr>]"
  by (simp add: entry_defs normalize_defs)

lemma scenario_merge:
  assumes "12 < s"
  shows "NormalizeBufferLayout [bufferEntry h s [attribAt l1 f1 0], bufferEntry h s [attribAt l2 f2 12]]
     = Inr [\<lparr> arrayStride = s, stepMode = None,
              attributes = sort_key shaderLocation [attribAt l1 f1 0, attribAt l2 f2 12],
              buffer = h, bufferOffset = Some 0 \<rparr>]"
  using assms by (simp add: entry_defs normalize_defs)

lemma scenario_split:
  "NormalizeBufferLayout [bufferEntry h 16 [attribAt l1 f1 0], bufferEntry h 16 [attribAt l2 f2 20]]
     = Inr (if l1 \<le> l2
            then [\<lparr> arrayStride = 16, stepMode = None, attributes = [attribAt l1 f1 0],
                     buffer = h, bufferOffset = Some 0 \<rparr>,
                  \<lparr> arrayStride = 16, stepMode = None, attributes = [attribAt l2 f2 0],
                     buffer = h, bufferOffset = Some 20 \<rparr>]
            else [\<lparr> arrayStride = 16, stepMode = None, attributes = [attribAt l2 f2 0],
                     buffer = h, bufferOffset = Some 20 \<rparr>,
                  \<lparr> arrayStride = 16, stepMode = None, attributes = [attribAt l1 f1 0],
                     buffer = h, bufferOffset = Some 0 \<rparr>])"
  by (simp add: entry_defs normalize_defs)

lemma map_of_getOrCreate:
  "map_of (getOrCreate k d f m) k'
     = (if k' = k then Some (f (case map_of m k of None \<Rightarrow> d | Some v \<Rightarrow> v)) else map_of m k')"
  by (induction k d f m rule: getOrCreate.induct) auto

lemma map_fst_getOrCreate:
  "map fst (getOrCreate k d f m) = (if k \<in> fst ` set m then map fst m else map fst m @ [k])"
  by (induction k d f m rule: getOrCreate.induct) auto

lemma distinct_getOrCreate:
  "distinct (map fst m) \<Longrightarrow> distinct (map fst (getOrCreate k d f m))"
  by (simp add: map_fst_getOrCreate)

lemma groupOf_Nil: "groupOf [] h s = []"
  by (simp add: groupOf_def)

lemma groupOf_step:
  "groupOf (getOrCreate b [] (getOrCreate s [] (\<lambda>v. v @ new)) m) h' s'
     = (if h' = b \<and> s' = s then groupOf m h' s' @ new else groupOf m h' s')"
  by (simp add: groupOf_def map_of_getOrCreate split: option.splits)

lemma absoluteAttribs_update:
  "absoluteAttribs l
     = map (\<lambda>a. a\<lparr>offset := offset a + (case bufferOffset l of None \<Rightarrow> 0 | Some n \<Rightarrow> n)\<rparr>) (attributes l)"
  by (simp add: absoluteAttribs_def)

lemma groupAttribs_Cons:
  "groupAttribs h s (l # xs)
     = (if buffer l = h \<and> arrayStride l = s then absoluteAttribs l else []) @ groupAttribs h s xs"
  by (simp add: groupAttribs_def absoluteAttribs_update)

lemma groupAttribs_Nil: "groupAttribs h s [] = []"
  by (simp add: groupAttribs_def)

lemma groupOf_groupByBufferStride:
  "groupOf (groupByBufferStride xs m) h s = groupOf m h s @ groupAttribs h s xs"
proof (induction xs arbitrary: m)
  case Nil
  then show ?case by (simp add: groupAttribs_Nil)
next
  case (Cons l xs)
  show ?case
  proof (cases "attributes l = []")
    case True
    then have "absoluteAttribs l = []" by (simp add: absoluteAttribs_def)
    then show ?thesis using True Cons by (simp add: groupAttribs_Cons)
  next
    case False
    then show ?thesis using Cons by (simp add: groupAttribs_Cons groupOf_step)
  qed
qed

lemma keys_distinct_step:
  assumes "keys_distinct m"
  shows "keys_distinct (getOrCreate b [] (getOrCreate s [] f) m)"
proof -
  let ?P = "\<lambda>p :: 'a \<times> (nat \<times> 'b) list. distinct (map fst (snd p))"
  have "\<forall>p\<in>set m. ?P p" using assms by (simp add: keys_distinct_def)
  then have "\<forall>p\<in>set (getOrCreate b [] (getOrCreate s [] f) m). ?P p"
    by (intro set_getOrCreate_pred [where P = "?P" and f = "getOrCreate s [] f"])
       (simp_all add: distinct_getOrCreate)
  then show ?thesis using assms by (simp add: keys_distinct_def distinct_getOrCreate)
qed

lemma keys_distinct_groupByBufferStride:
  "keys_distinct m \<Longrightarrow> keys_distinct (groupByBufferStride xs m)"
  by (induction xs arbitrary: m) (simp_all add: keys_distinct_step)

lemma splitAttribs_handle:
  "l \<in> set (splitAttribs b s m attrs as) \<Longrightarrow> buffer l = b \<and> arrayStride l = s"
  by (induction as arbitrary: m attrs) (auto simp: Let_def split: if_splits)

lemma normalizeGroup_handle:
  assumes "normalizeGroup b s as = Inr g" and "l \<in> set g"
  shows "buffer l = b \<and> arrayStride l = s"
proof (cases "sort_key offset as")
  case Nil
  then show ?thesis using assms by (simp add: normalizeGroup_def)
next
  case (Cons a rest)
  then have "g = splitAttribs b s (offset a) [] (a # rest)"
    using assms(1) by (simp add: normalizeGroup_def del: splitAttribs.simps)
  then have "l \<in> set (splitAttribs b s (offset a) [] (a # rest))" using assms(2) by (simp only:)
  then show ?thesis by (rule splitAttribs_handle)
qed

lemma normalizeGroup_Nil: "normalizeGroup b s [] = Inl TypeError"
  by (simp add: normalizeGroup_def)

lemma filter_all: "\<forall>x\<in>set xs. P x \<Longrightarrow> filter P xs = xs"
  by (induction xs) auto

lemma filter_none: "\<forall>x\<in>set xs. \<not> P x \<Longrightarrow> filter P xs = []"
  by (induction xs) auto

lemma normalizeStrides_filter:
  assumes "normalizeStrides b sm = Inr ls" and "distinct (map fst sm)"
  shows "filter (\<lambda>l. buffer l = h \<and> arrayStride l = s) ls
     = (if h = b
        then (case normalizeGroup b s (case map_of sm s of None \<Rightarrow> [] | Some as \<Rightarrow> as) of
                Inl e \<Rightarrow> [] | Inr g \<Rightarrow> g)
        else [])"
  using assms
proof (induction sm arbitrary: ls)
  case Nil
  then show ?case by (simp add: normalizeGroup_Nil)
next
  case (Cons p sm)
  obtain s0 as0 where p: "p = (s0, as0)" by (cases p)
  obtain g ls' where g: "normalizeGroup b s0 as0 = Inr g" and r: "normalizeStrides b sm = Inr ls'"
    and ls: "ls = g @ ls'"
    using Cons.prems(1) p by (auto split: sum.splits)
  have d: "distinct (map fst sm)" "s0 \<notin> fst ` set sm" using Cons.prems(2) p by auto
  note ih = Cons.IH [OF r d(1)]
  have gh: "\<forall>l\<in>set g. buffer l = b \<and> arrayStride l = s0"
    using normalizeGroup_handle [OF g] by blast
  show ?case
  proof (cases "h = b \<and> s = s0")
    case True
    have "filter (\<lambda>l. buffer l = h \<and> arrayStride l = s) g = g"
      using gh True by (intro filter_all) simp
    moreover have "map_of sm s = None" using d(2) True by (simp add: map_of_eq_None_iff)
    then have "filter (\<lambda>l. buffer l = h \<and> arrayStride l = s) ls' = []"
      using ih True by (simp add: normalizeGroup_Nil)
    ultimately show ?thesis using True p g ls by simp
  next
    case False
    have "filter (\<lambda>l. buffer l = h \<and> arrayStride l = s) g = []"
      using gh False by (intro filter_none) auto
    then show ?thesis using False p ls ih by auto
  qed
qed

lemma normalizeStrides_handle:
  "normalizeStrides b sm = Inr ls \<Longrightarrow> l \<in> set ls \<Longrightarrow> buffer l = b"
proof (induction sm arbitrary: ls)
  case Nil
  then show ?case by simp
next
  case (Cons p sm)
  obtain s0 as0 where p: "p = (s0, as0)" by (cases p)
  obtain g ls' where g: "normalizeGroup b s0 as0 = Inr g" and r: "normalizeStrides b sm = Inr ls'"
    and ls: "ls = g @ ls'"
    using Cons.prems(1) p by (auto split: sum.splits)
  show ?case using Cons.prems(2) ls normalizeGroup_handle [OF g] Cons.IH [OF r] by auto
qed

lemma normalizeBuffers_filter:
  assumes "normalizeBuffers m = Inr ls" and "keys_distinct m"
  shows "filter (\<lambda>l. buffer l = h \<and> arrayStride l = s) ls
     = (case normalizeGroup h s (groupOf m h s) of Inl e \<Rightarrow> [] | Inr g \<Rightarrow> g)"
  using assms
proof (induction m arbitrary: ls)
  case Nil
  then show ?case by (simp add: groupOf_def normalizeGroup_Nil)
next
  case (Cons p m)
  obtain b sm where p: "p = (b, sm)" by (cases p)
  obtain g ls' where g: "normalizeStrides b sm = Inr g" and r: "normalizeBuffers m = Inr ls'"
    and ls: "ls = g @ ls'"
    using Cons.prems(1) p by (auto split: sum.splits)
  have d: "keys_distinct m" "b \<notin> fst ` set m" "distinct (map fst sm)"
    using Cons.prems(2) p by (auto simp: keys_distinct_def)
  note ih = Cons.IH [OF r d(1)]
  note f = normalizeStrides_filter [OF g d(3), of h s]
  show ?case
  proof (cases "h = b")
    case True
    have "map_of m h = None" using d(2) True by (simp add: map_of_eq_None_iff)
    then have "groupOf m h s = []" by (simp add: groupOf_def)
    then have "filter (\<lambda>l. buffer l = h \<and> arrayStride l = s) ls' = []"
      using ih by (simp add: normalizeGroup_Nil)
    moreover have "groupOf (p # m) h s = (case map_of sm s of None \<Rightarrow> [] | Some as \<Rightarrow> as)"
      using True p by (simp add: groupOf_def)
    ultimately show ?thesis using True f ls by simp
  next
    case False
    have "groupOf (p # m) h s = groupOf m h s" using False p by (simp add: groupOf_def)
    then show ?thesis using False f ls ih by simp
  qed
qed

lemma rebase_update: "rebase m = (\<lambda>a. a\<lparr>offset := offset a - m\<rparr>)"
  by (rule ext) (simp add: rebase_def)

lemma splitAttribs_windows:
  assumes "0 < s"
  shows "sorted (map offset as) \<Longrightarrow> \<forall>x\<in>set as. m \<le> offset x \<Longrightarrow>
     splitAttribs h s m (map (rebase m) cur) as
       = map (\<lambda>(m, w). pushLayout h m s (map (rebase m) w))
           ((m, cur @ takeWhile (\<lambda>x. offset x < m + s) as)
            # windows s (dropWhile (\<lambda>x. offset x < m + s) as))"
proof (induction as arbitrary: m cur)
  case Nil
  then show ?case by simp
next
  case (Cons a as)
  have srt: "sorted (map offset as)" and le: "\<forall>x\<in>set as. offset a \<le> offset x"
    using Cons.prems(1) by auto
  show ?case
  proof (cases "offset a < m + s")
    case True
    have "\<forall>x\<in>set as. m \<le> offset x" using Cons.prems(2) by simp
    note ih = Cons.IH [OF srt this, of "cur @ [a]"]
    have "\<not> s \<le> offset a - m" using True assms by arith
    then have "splitAttribs h s m (map (rebase m) cur) (a # as)
        = splitAttribs h s m (map (rebase m) (cur @ [a])) as"
      by (simp add: Let_def rebase_def)
    then show ?thesis using ih True by simp
  next
    case False
    then have ge: "s \<le> offset a - m" by simp
    note ih = Cons.IH [OF srt le, of "[a]"]
    have "splitAttribs h s m (map (rebase m) cur) (a # as)
        = pushLayout h m s (map (rebase m) cur)
          # splitAttribs h s (offset a) (map (rebase (offset a)) [a]) as"
      using ge by (simp add: Let_def rebase_def)
    then show ?thesis using ih False by simp
  qed
qed

lemma normalizeGroup_bindingsOf:
  assumes "0 < s" and "as \<noteq> []"
  shows "normalizeGroup h s as = Inr (bindingsOf h s as)"
proof -
  obtain a rest where sa: "sort_key offset as = a # rest"
    using assms(2) by (cases "sort_key offset as") (auto simp: sort_key_Nil_iff)
  have srt: "sorted (map offset (a # rest))" using sorted_sort_key [of offset as] sa by simp
  then have le: "\<forall>x\<in>set (a # rest). offset a \<le> offset x" by auto
  have "splitAttribs h s (offset a) (map (rebase (offset a)) []) (a # rest)
       = map (\<lambda>(m, w). pushLayout h m s (map (rebase m) w))
           ((offset a, [] @ takeWhile (\<lambda>x. offset x < offset a + s) (a # rest))
            # windows s (dropWhile (\<lambda>x. offset x < offset a + s) (a # rest)))"
    by (rule splitAttribs_windows [OF assms(1) srt le])
  also have "\<dots> = map (\<lambda>(m, w). pushLayout h m s (map (rebase m) w)) (windows s (a # rest))"
    using assms(1) by simp
  also have "\<dots> = bindingsOf h s as"
    unfolding bindingsOf_def sa by (simp add: pushLayout_def rebase_update split_def)
  finally show ?thesis by (simp add: normalizeGroup_def sa)
qed

lemma bindingsOf_Nil: "bindingsOf h s [] = []"
  by (simp add: bindingsOf_def)

lemma groupAttribs_nonempty:
  "groupAttribs h s xs \<noteq> [] \<Longrightarrow> \<exists>l\<in>set xs. attributes l \<noteq> [] \<and> arrayStride l = s"
  by (auto simp: groupAttribs_def)

lemma NormalizeBufferLayout_Inr:
  assumes "NormalizeBufferLayout xs = Inr ys"
  shows "\<exists>ls. normalizeBuffers (groupByBufferStride xs []) = Inr ls
           \<and> ys = sort_key (\<lambda>l. shaderLocation (hd (attributes l))) ls"
    and "\<forall>l\<in>set xs. attributes l \<noteq> [] \<longrightarrow> 0 < arrayStride l"
proof -
  have g0: "groups_nonempty ([] :: ('a \<times> (nat \<times> GPUVertexAttribute list) list) list)"
    by (simp add: groups_nonempty_def)
  let ?m = "groupByBufferStride xs []"
  note gs = groupByBufferStride_shape [OF g0, of xs]
  obtain ls where ls: "normalizeBuffers ?m = Inr ls" "has_empty ls \<longleftrightarrow> 0 \<in> group_strides ?m"
      "has_empty ls \<longrightarrow> 2 \<le> length ls"
    using normalizeBuffers_shape [of ?m] gs by blast
  have s: "sortLayouts ls = Inr ys" using assms by (simp add: NormalizeBufferLayout_def ls(1))
  note so = sortLayouts_Inr [OF s ls(3)]
  show "\<exists>ls. normalizeBuffers (groupByBufferStride xs []) = Inr ls
           \<and> ys = sort_key (\<lambda>l. shaderLocation (hd (attributes l))) ls"
    using ls(1) so(2) by blast
  have "0 \<notin> group_strides ?m" using so(1) ls(2) by simp
  then have "0 \<notin> arrayStride ` {l \<in> set xs. attributes l \<noteq> []}" using gs by simp
  then show "\<forall>l\<in>set xs. attributes l \<noteq> [] \<longrightarrow> 0 < arrayStride l"
    by force
qed

lemma returns_iff:
  "(\<exists>ys. NormalizeBufferLayout xs = Inr ys) \<longleftrightarrow> (\<forall>l\<in>set xs. attributes l \<noteq> [] \<longrightarrow> 0 < arrayStride l)"
proof
  assume "\<exists>ys. NormalizeBufferLayout xs = Inr ys"
  then show "\<forall>l\<in>set xs. attributes l \<noteq> [] \<longrightarrow> 0 < arrayStride l"
    using NormalizeBufferLayout_Inr(2) by blast
next
  assume a: "\<forall>l\<in>set xs. attributes l \<noteq> [] \<longrightarrow> 0 < arrayStride l"
  have g0: "groups_nonempty ([] :: ('a \<times> (nat \<times> GPUVertexAttribute list) list) list)"
    by (simp add: groups_nonempty_def)
  let ?m = "groupByBufferStride xs []"
  note gs = groupByBufferStride_shape [OF g0, of xs]
  obtain ls where ls: "normalizeBuffers ?m = Inr ls" "has_empty ls \<longleftrightarrow> 0 \<in> group_strides ?m"
    using normalizeBuffers_shape [of ?m] gs by blast
  have "group_strides ([] :: ('a \<times> (nat \<times> GPUVertexAttribute list) list) list) = {}"
    by (simp add: group_strides_def)
  moreover have "0 \<notin> arrayStride ` {l \<in> set xs. attributes l \<noteq> []}" using a by force
  ultimately have "0 \<notin> group_strides ?m" using gs by simp
  then have "\<not> has_empty ls" using ls(2) by simp
  then show "\<exists>ys. NormalizeBufferLayout xs = Inr ys"
    using ls(1) sortLayouts_no_empty by (auto simp: NormalizeBufferLayout_def)
qed

lemma grouping:
  assumes "NormalizeBufferLayout xs = Inr ys"
  shows "filter (\<lambda>l. buffer l = h \<and> arrayStride l = s) ys
     = sort_key (\<lambda>l. shaderLocation (hd (attributes l))) (bindingsOf h s (groupAttribs h s xs))"
proof -
  note n = NormalizeBufferLayout_Inr [OF assms]
  obtain ls where ls: "normalizeBuffers (groupByBufferStride xs []) = Inr ls"
      "ys = sort_key (\<lambda>l. shaderLocation (hd (attributes l))) ls"
    using n(1) by blast
  have kd: "keys_distinct (groupByBufferStride xs [])"
    by (rule keys_distinct_groupByBufferStride) (simp add: keys_distinct_def)
  have go: "groupOf (groupByBufferStride xs []) h s = groupAttribs h s xs"
    by (simp add: groupOf_groupByBufferStride groupOf_Nil)
  have f: "filter (\<lambda>l. buffer l = h \<and> arrayStride l = s) ls
     = (case normalizeGroup h s (groupAttribs h s xs) of Inl e \<Rightarrow> [] | Inr g \<Rightarrow> g)"
    using normalizeBuffers_filter [OF ls(1) kd, of h s] by (simp only: go)
  have "filter (\<lambda>l. buffer l = h \<and> arrayStride l = s) ls = bindingsOf h s (groupAttribs h s xs)"
  proof (cases "groupAttribs h s xs = []")
    case True
    then show ?thesis using f by (simp add: normalizeGroup_Nil bindingsOf_Nil)
  next
    case False
    then have "0 < s" using groupAttribs_nonempty [OF False] n(2) by auto
    then show ?thesis using f normalizeGroup_bindingsOf [OF _ False, of s h] by simp
  qed
  then show ?thesis unfolding ls(2) by (simp only: filter_sort)
qed

lemma windows_single:
  assumes "\<forall>x\<in>set as. offset x < offset a + s"
  shows "windows s (a # as) = [(offset a, a # as)]"
proof -
  have t: "takeWhile (\<lambda>x. offset x < offset a + s) as = as"
    using assms by (simp add: takeWhile_eq_all_conv)
  have d: "dropWhile (\<lambda>x. offset x < offset a + s) as = []"
    using assms by (simp add: dropWhile_eq_Nil_conv)
  show ?thesis by (simp only: windows.simps t d)
qed

lemma bindingsOf_single:
  assumes m: "m \<in> offset ` set as"
    and w: "\<forall>a\<in>set as. m \<le> offset a \<and> offset a < m + s"
  shows "bindingsOf h s as
     = [\<lparr> arrayStride = s, stepMode = None,
          attributes = sort_key shaderLocation (map (rebase m) (sort_key offset as)),
          buffer = h, bufferOffset = Some m \<rparr>]"
proof -
  have ne: "as \<noteq> []" using m by auto
  then obtain a rest where sa: "sort_key offset as = a # rest"
    by (cases "sort_key offset as") (auto simp: sort_key_Nil_iff)
  have "offset (hd (sort_key offset as)) = m"
    using sort_key_hd_least [OF ne m] w by blast
  then have oa: "offset a = m" using sa by simp
  have set: "set (a # rest) = set as" by (simp only: sa [symmetric] set_sort)
  have "\<forall>x\<in>set rest. offset x < offset a + s"
  proof
    fix x assume "x \<in> set rest"
    then have "x \<in> set as" using set by auto
    then show "offset x < offset a + s" using w oa by simp
  qed
  then have "windows s (a # rest) = [(offset a, a # rest)]" by (rule windows_single)
  then have w1: "windows s (a # rest) = [(m, a # rest)]" by (simp only: oa)
  show ?thesis unfolding bindingsOf_def sa w1 by (simp add: rebase_update)
qed

lemma scenario_two:
  assumes "0 < s" and "s \<le> 12"
  shows "NormalizeBufferLayout [bufferEntry h s [attribAt l1 f1 0], bufferEntry h s [attribAt l2 f2 12]]
     = Inr (if l1 \<le> l2
            then [\<lparr> arrayStride = s, stepMode = None, attributes = [attribAt l1 f1 0],
                     buffer = h, bufferOffset = Some 0 \<rparr>,
                  \<lparr> arrayStride = s, stepMode = None, attributes = [attribAt l2 f2 0],
                     buffer = h, bufferOffset = Some 12 \<rparr>]
            else [\<lparr> arrayStride = s, stepMode = None, attributes = [attribAt l2 f2 0],
                     buffer = h, bufferOffset = Some 12 \<rparr>,
                  \<lparr> arrayStride = s, stepMode = None, attributes = [attribAt l1 f1 0],
                     buffer = h, bufferOffset = Some 0 \<rparr>])"
  using assms by (simp add: entry_defs normalize_defs)

text \<open>
  Claim C6 as amended.  The normalizer returns exactly when no entry with attributes has
  stride 0.  When it returns, then for every handle and stride the bindings of the result
  on that handle with that stride are the bindings of the group: all attributes of the
  entries on the handle with the stride, taken with absolute offsets in offset order and
  cut wherever an attribute lies a stride or more beyond the base of the current
  binding, each binding based at its first attribute; among themselves they are in the
  order of their lowest shader locations.  When every attribute of a group lies within one
  stride of the least offset \<open>m\<close>, the group gives exactly one binding, at \<open>m\<close>.  Two entries
  at offsets 0 and 12 give one binding at 0 when the stride is above 12, and a binding at
  0 and one at 12, in the order of their shader locations, when the stride is between 1
  and 12; two entries at offsets 0 and 20 with stride 16 give a binding at 0 and a binding
  at 20 whose attribute has offset 0, in the order of their shader locations.
\<close>

theorem NormalizeBufferLayout_groups:
  "((\<exists>ys. NormalizeBufferLayout xs = Inr ys)
      \<longleftrightarrow> (\<forall>l\<in>set xs. attributes l \<noteq> [] \<longrightarrow> 0 < arrayStride l))
   \<and> (NormalizeBufferLayout xs = Inr ys
      \<longrightarrow> filter (\<lambda>l. buffer l = h \<and> arrayStride l = s) ys
          = sort_key (\<lambda>l. shaderLocation (hd (attributes l))) (bindingsOf h s (groupAttribs h s xs)))
   \<and> (NormalizeBufferLayout xs = Inr ys
        \<and> m \<in> offset ` set (groupAttribs h s xs)
        \<and> (\<forall>a\<in>set (groupAttribs h s xs). m \<le> offset a \<and> offset a < m + s)
      \<longrightarrow> filter (\<lambda>l. buffer l = h \<and> arrayStride l = s) ys
          = [\<lparr> arrayStride = s, stepMode = None,
               attributes = sort_key shaderLocation
                  (map (rebase m) (sort_key offset (groupAttribs h s xs))),
               buffer = h, bufferOffset = Some m \<rparr>])
   \<and> (12 < stride
      \<longrightarrow> NormalizeBufferLayout
            [bufferEntry h stride [attribAt l1 f1 0], bufferEntry h stride [attribAt l2 f2 12]]
          = Inr [\<lparr> arrayStride = stride, stepMode = None,
                   attributes = sort_key shaderLocation [attribAt l1 f1 0, attribAt l2 f2 12],
                   buffer = h, bufferOffset = Some 0 \<rparr>])
   \<and> (0 < stride \<and> stride \<le> 12
      \<longrightarrow> NormalizeBufferLayout
            [bufferEntry h stride [attribAt l1 f1 0], bufferEntry h stride [attribAt l2 f2 12]]
          = Inr (if l1 \<le> l2
              then [\<lparr> arrayStride = stride, stepMode = None, attributes = [attribAt l1 f1 0],
                       buffer = h, bufferOffset = Some 0 \<rparr>,
                    \<lparr> arrayStride = stride, stepMode = None, attributes = [attribAt l2 f2 0],
                       buffer = h, bufferOffset = Some 12 \<rparr>]
              else [\<lparr> arrayStride = stride, stepMode = None, attributes = [attribAt l2 f2 0],
                       buffer = h, bufferOffset = Some 12 \<rparr>,
                    \<lparr> arrayStride = stride, stepMode = None, attributes = [attribAt l1 f1 0],
                       buffer = h, bufferOffset = Some 0 \<rparr>]))
   \<and> NormalizeBufferLayout
          [bufferEntry h 16 [attribAt l1 f1 0], bufferEntry h 16 [attribAt l2 f2 20]]
        = Inr (if l1 \<le> l2
            then [\<lparr> arrayStride = 16, stepMode = None, attributes = [attribAt l1 f1 0],
                     buffer = h, bufferOffset = Some 0 \<rparr>,
                  \<lparr> arrayStride = 16, stepMode = None, attributes = [attribAt l2 f2 0],
                     buffer = h, bufferOffset = Some 20 \<rparr>]
            else [\<lparr> arrayStride = 16, stepMode = None, attributes = [attribAt l2 f2 0],
                     buffer = h, bufferOffset = Some 20 \<rparr>,
                  \<lparr> arrayStride = 16, stepMode = None, attributes = [attribAt l1 f1 0],
                     buffer = h, bufferOffset = Some 0 \<rparr>])"
proof (intro conjI impI)
  show "(\<exists>ys. NormalizeBufferLayout xs = Inr ys)
      \<longleftrightarrow> (\<forall>l\<in>set xs. attributes l \<noteq> [] \<longrightarrow> 0 < arrayStride l)"
    by (rule returns_iff)
next
  assume "NormalizeBufferLayout xs = Inr ys"
  then show "filter (\<lambda>l. buffer l = h \<and> arrayStride l = s) ys
          = sort_key (\<lambda>l. shaderLocation (hd (attributes l))) (bindingsOf h s (groupAttribs h s xs))"
    by (rule grouping)
next
  assume a: "NormalizeBufferLayout xs = Inr ys
        \<and> m \<in> offset ` set (groupAttribs h s xs)
        \<and> (\<forall>a\<in>set (groupAttribs h s xs). m \<le> offset a \<and> offset a < m + s)"
  then have r: "NormalizeBufferLayout xs = Inr ys" and m: "m \<in> offset ` set (groupAttribs h s xs)"
    and w: "\<forall>a\<in>set (groupAttribs h s xs). m \<le> offset a \<and> offset a < m + s"
    by blast+
  show "filter (\<lambda>l. buffer l = h \<and> arrayStride l = s) ys
          = [\<lparr> arrayStride = s, stepMode = None,
               attributes = sort_key shaderLocation
                  (map (rebase m) (sort_key offset (groupAttribs h s xs))),
               buffer = h, bufferOffset = Some m \<rparr>]"
    unfolding grouping [OF r] bindingsOf_single [OF m w] by simp
next
  assume "12 < stride"
  then show "NormalizeBufferLayout
          [bufferEntry h stride [attribAt l1 f1 0], bufferEntry h stride [attribAt l2 f2 12]]
        = Inr [\<lparr> arrayStride = stride, stepMode = None,
                 attributes = sort_key shaderLocation [attribAt l1 f1 0, attribAt l2 f2 12],
                 buffer = h, bufferOffset = Some 0 \<rparr>]"
    by (rule scenario_merge)
next
  assume "0 < stride \<and> stride \<le> 12"
  then have "0 < stride" "stride \<le> 12" by simp_all
  then show "NormalizeBufferLayout
            [bufferEntry h stride [attribAt l1 f1 0], bufferEntry h stride [attribAt l2 f2 12]]
          = Inr (if l1 \<le> l2
              then [\<lparr> arrayStride = stride, stepMode = None, attributes = [attribAt l1 f1 0],
                       buffer = h, bufferOffset = Some 0 \<rparr>,
                    \<lparr> arrayStride = stride, stepMode = None, attributes = [attribAt l2 f2 0],
                       buffer = h, bufferOffset = Some 12 \<rparr>]
              else [\<lparr> arrayStride = stride, stepMode = None, attributes = [attribAt l2 f2 0],
                       buffer = h, bufferOffset = Some 12 \<rparr>,
                    \<lparr> arrayStride = stride, stepMode = None, attributes = [attribAt l1 f1 0],
                       buffer = h, bufferOffset = Some 0 \<rparr>])"
    by (rule scenario_two)
next
  show "NormalizeBufferLayout
          [bufferEntry h 16 [attribAt l1 f1 0], bufferEntry h 16 [attribAt l2 f2 20]]
        = Inr (if l1 \<le> l2
            then [\<lparr> arrayStride = 16, stepMode = None, attributes = [attribAt l1 f1 0],
                     buffer = h, bufferOffset = Some 0 \<rparr>,
                  \<lparr> arrayStride = 16, stepMode = None, attributes = [attribAt l2 f2 0],
                     buffer = h, bufferOffset = Some 20 \<rparr>]
            else [\<lparr> arrayStride = 16, stepMode = None, attributes = [attribAt l2 f2 0],
                     buffer = h, bufferOffset = Some 20 \<rparr>,
                  \<lparr> arrayStride = 16, stepMode = None, attributes = [attribAt l1 f1 0],
                     buffer = h, bufferOffset = Some 0 \<rparr>])"
    by (rule scenario_split)
qed

lemmas group_defs = groupAttribs_def bindingsOf_def

lemma normalize_three_groups: "NormalizeBufferLayout three_groups = Inr three_groups_normalized"
  by (simp add: three_groups_def three_groups_normalized_def entry_defs normalize_defs)

theorem NormalizeBufferLayout_groups_witness:
  "(\<exists>ys. NormalizeBufferLayout three_groups = Inr ys)
   \<and> filter (\<lambda>l. buffer l = 7 \<and> arrayStride l = 16) three_groups_normalized
       = sort_key (\<lambda>l. shaderLocation (hd (attributes l)))
           (bindingsOf 7 16 (groupAttribs 7 16 three_groups))
   \<and> bindingsOf (7::nat) 16 (groupAttribs 7 16 three_groups)
       = [\<lparr> arrayStride = 16, stepMode = None,
            attributes = [attribAt 1 float32x2 8, attribAt 5 float32x2 0],
            buffer = 7, bufferOffset = Some 0 \<rparr>,
          \<lparr> arrayStride = 16, stepMode = None, attributes = [attribAt 2 float32x2 0],
            buffer = 7, bufferOffset = Some 40 \<rparr>]
   \<and> filter (\<lambda>l. buffer l = 8 \<and> arrayStride l = 16) three_groups_normalized
       = [\<lparr> arrayStride = 16, stepMode = None, attributes = [attribAt 3 float32x2 0],
            buffer = 8, bufferOffset = Some 0 \<rparr>]
   \<and> NormalizeBufferLayout
        [bufferEntry (7::nat) 32 [attribAt 0 float32x3 0], bufferEntry 7 32 [attribAt 1 float32x3 12]]
       = Inr [\<lparr> arrayStride = 32, stepMode = None,
                attributes = [attribAt 0 float32x3 0, attribAt 1 float32x3 12],
                buffer = 7, bufferOffset = Some 0 \<rparr>]
   \<and> NormalizeBufferLayout
        [bufferEntry (7::nat) 12 [attribAt 0 float32x3 0], bufferEntry 7 12 [attribAt 1 float32x3 12]]
       = Inr [\<lparr> arrayStride = 12, stepMode = None, attributes = [attribAt 0 float32x3 0],
                buffer = 7, bufferOffset = Some 0 \<rparr>,
              \<lparr> arrayStride = 12, stepMode = None, attributes = [attribAt 1 float32x3 0],
                buffer = 7, bufferOffset = Some 12 \<rparr>]"
proof -
  note n = normalize_three_groups
  note T1 = NormalizeBufferLayout_groups [where xs = three_groups and ys = three_groups_normalized
      and h = 7 and s = 16 and m = 0 and stride = 32
      and ?l1.0 = 0 and ?f1.0 = float32x3 and ?l2.0 = 1 and ?f2.0 = float32x3]
  note T2 = NormalizeBufferLayout_groups [where xs = three_groups and ys = three_groups_normalized
      and h = 8 and s = 16 and m = 0 and stride = 12
      and ?l1.0 = 0 and ?f1.0 = float32x3 and ?l2.0 = 1 and ?f2.0 = float32x3]
  note T3 = NormalizeBufferLayout_groups [where xs = three_groups and ys = three_groups_normalized
      and h = 7 and s = 16 and m = 0 and stride = 12
      and ?l1.0 = 0 and ?f1.0 = float32x3 and ?l2.0 = 1 and ?f2.0 = float32x3]
  have p: "\<forall>l\<in>set three_groups. attributes l \<noteq> [] \<longrightarrow> 0 < arrayStride l"
    by (simp add: three_groups_def entry_defs)
  have a: "\<exists>ys. NormalizeBufferLayout three_groups = Inr ys"
    using T1 [THEN conjunct1] p by (rule iffD2)
  note b = T1 [THEN conjunct2, THEN conjunct1, THEN mp, OF n]
  have g7: "bindingsOf (7::nat) 16 (groupAttribs 7 16 three_groups)
       = [\<lparr> arrayStride = 16, stepMode = None,
            attributes = [attribAt 1 float32x2 8, attribAt 5 float32x2 0],
            buffer = 7, bufferOffset = Some 0 \<rparr>,
          \<lparr> arrayStride = 16, stepMode = None, attributes = [attribAt 2 float32x2 0],
            buffer = 7, bufferOffset = Some 40 \<rparr>]"
    by (simp add: three_groups_def entry_defs group_defs)
  have g8: "groupAttribs (8::nat) 16 three_groups = [attribAt 3 float32x2 0]"
    by (simp add: three_groups_def entry_defs group_defs)
  have h8: "NormalizeBufferLayout three_groups = Inr three_groups_normalized
        \<and> 0 \<in> offset ` set (groupAttribs 8 16 three_groups)
        \<and> (\<forall>a\<in>set (groupAttribs 8 16 three_groups). 0 \<le> offset a \<and> offset a < 0 + 16)"
    using n by (simp add: g8) (simp add: attribAt_def)
  have c: "filter (\<lambda>l. buffer l = 8 \<and> arrayStride l = 16) three_groups_normalized
       = [\<lparr> arrayStride = 16, stepMode = None, attributes = [attribAt 3 float32x2 0],
            buffer = 8, bufferOffset = Some 0 \<rparr>]"
    using T2 [THEN conjunct2, THEN conjunct2, THEN conjunct1, THEN mp, OF h8]
    by (simp add: g8) (simp add: attribAt_def rebase_def)
  have h3: "(12::nat) < 32" by simp
  have d: "NormalizeBufferLayout
        [bufferEntry (7::nat) 32 [attribAt 0 float32x3 0], bufferEntry 7 32 [attribAt 1 float32x3 12]]
       = Inr [\<lparr> arrayStride = 32, stepMode = None,
                attributes = [attribAt 0 float32x3 0, attribAt 1 float32x3 12],
                buffer = 7, bufferOffset = Some 0 \<rparr>]"
    using T1 [THEN conjunct2, THEN conjunct2, THEN conjunct2, THEN conjunct1, THEN mp, OF h3]
    by (simp add: attribAt_def)
  have h4: "(0::nat) < 12 \<and> (12::nat) \<le> 12" by simp
  have e: "NormalizeBufferLayout
        [bufferEntry (7::nat) 12 [attribAt 0 float32x3 0], bufferEntry 7 12 [attribAt 1 float32x3 12]]
       = Inr [\<lparr> arrayStride = 12, stepMode = None, attributes = [attribAt 0 float32x3 0],
                buffer = 7, bufferOffset = Some 0 \<rparr>,
              \<lparr> arrayStride = 12, stepMode = None, attributes = [attribAt 1 float32x3 0],
                buffer = 7, bufferOffset = Some 12 \<rparr>]"
    using T3 [THEN conjunct2, THEN conjunct2, THEN conjunct2, THEN conjunct2, THEN conjunct1, THEN mp, OF h4]
    by simp
  show ?thesis by (intro conjI a b g7 c d e)
qed

section \<open>Hexadecimal keys and the first byte of a registered layout\<close>

lemma hexDigit_inj: "i < 16 \<Longrightarrow> j < 16 \<Longrightarrow> hexDigit i = hexDigit j \<Longrightarrow> i = j"
proof -
  assume a: "i < 16" "j < 16" "hexDigit i = hexDigit j"
  have d: "distinct ''0123456789abcdef''" by simp
  have l: "length ''0123456789abcdef'' = 16" by simp
  show "i = j"
    using a d l nth_eq_iff_index_eq [of "''0123456789abcdef''" i j]
    unfolding hexDigit_def by metis
qed

lemma Uint8ToHex_of_nat:
  "i < 256 \<Longrightarrow> Uint8ToHex (of_nat i) = [hexDigit (i div 16), hexDigit (i mod 16)]"
  by (simp add: Uint8ToHex_def unat_of_nat take_bit_eq_mod)

lemma Uint8ToHex_inj_nat:
  assumes "i < 256" "j < 256" "Uint8ToHex (of_nat i) = Uint8ToHex (of_nat j)"
  shows "i = j"
proof -
  have "hexDigit (i div 16) = hexDigit (j div 16)" "hexDigit (i mod 16) = hexDigit (j mod 16)"
    using assms by (simp_all add: Uint8ToHex_of_nat)
  moreover have "i div 16 < 16" "j div 16 < 16" "i mod 16 < 16" "j mod 16 < 16"
    using assms(1,2) by simp_all
  ultimately have "i div 16 = j div 16" "i mod 16 = j mod 16"
    using hexDigit_inj by blast+
  then show ?thesis by (metis div_mult_mod_eq)
qed

lemma map_of_table:
  "x \<in> set xs \<Longrightarrow> (\<And>y. y \<in> set xs \<Longrightarrow> f y = f x \<Longrightarrow> y = x)
     \<Longrightarrow> map_of (map (\<lambda>i. (f i, g i)) xs) (f x) = Some (g x)"
proof (induction xs)
  case Nil
  then show ?case by simp
next
  case (Cons a xs)
  show ?case
  proof (cases "f a = f x")
    case True
    then have "a = x" using Cons.prems(2) [of a] by simp
    then show ?thesis by simp
  next
    case False
    then have "x \<in> set xs" using Cons.prems(1) by auto
    then have "map_of (map (\<lambda>i. (f i, g i)) xs) (f x) = Some (g x)"
      using Cons.IH Cons.prems(2) by simp
    then show ?thesis using False by simp
  qed
qed

lemma HexToUint8_Uint8ToHex: "HexToUint8 (Uint8ToHex b) = Some b"
proof -
  have u: "unat b < 256" using unsigned_less [of b, where ?'a = nat] by simp
  have b: "of_nat (unat b) = b" by simp
  have "map_of (map (\<lambda>i. (Uint8ToHex (of_nat i), (of_nat i :: byte))) [0..<256])
          (Uint8ToHex (of_nat (unat b))) = Some (of_nat (unat b))"
  proof (rule map_of_table)
    show "unat b \<in> set [0..<256]" using u by simp
  next
    fix y assume "y \<in> set [0..<256]" "Uint8ToHex (of_nat y) = Uint8ToHex (of_nat (unat b))"
    then show "y = unat b" using Uint8ToHex_inj_nat [of y "unat b"] u by simp
  qed
  then show ?thesis by (simp only: HexToUint8_def HexToUint8_table_def b)
qed

lemma hexBytes_Cons2:
  "hexBytes (x # y # s) = (case HexToUint8 [x, y] of Some b \<Rightarrow> b | None \<Rightarrow> 0) # hexBytes s"
proof -
  have l: "length (x # y # s) div 2 = Suc (length s div 2)" by simp
  have u: "[0..<Suc (length s div 2)] = 0 # map Suc [0..<length s div 2]"
    by (simp add: upt_conv_Cons map_Suc_upt del: upt_Suc)
  show ?thesis
    unfolding hexBytes_def l u by (simp add: comp_def)
qed

lemma hexBytes_Nil: "hexBytes [] = []"
  by (simp add: hexBytes_def)

lemma hexBytes_hex: "hexBytes (concat (map Uint8ToHex bs)) = bs"
proof (induction bs)
  case Nil
  then show ?case by (simp add: hexBytes_Nil)
next
  case (Cons b bs)
  obtain x y where xy: "Uint8ToHex b = [x, y]" by (simp add: Uint8ToHex_def)
  have "HexToUint8 [x, y] = Some b" using HexToUint8_Uint8ToHex [of b] xy by simp
  then show ?case using Cons xy by (simp add: hexBytes_Cons2)
qed

text \<open>
  What \<open>deserializeFromString\<close> does for claim C4: the decoded object returns the string
  it was decoded from, and the bytes of that string, without encoding anything.
\<close>

lemma string_path_reproduces:
  assumes "serializeToString (GeometryLayout_new bufs topo f) = (s, obj)"
    and "deserializeFromString s = Inr obj'"
  shows "fst (serializeToString obj') = s"
    and "fst (serializeToBuffer obj') = fst (serializeToBuffer (GeometryLayout_new bufs topo f))"
proof -
  have c: "serializedString obj' = Some s" "serializedBuffer obj' = Some (hexBytes s)" "s \<noteq> []"
    using assms(2)
    by (auto simp: deserializeFromString_def deserializeFromBuffer_def DataView_new_def
          decodeView_def hexBytes_def Let_def split: sum.splits list.splits)
  show "fst (serializeToString obj') = s" using c by (simp add: serializeToString_def)
  have "s = concat (map Uint8ToHex (encodeLayout (GeometryLayout_new bufs topo f)))"
    using assms(1)
    by (auto simp: serializeToString_def serializeToBuffer_def GeometryLayout_new_def Let_def)
  then have "hexBytes s = encodeLayout (GeometryLayout_new bufs topo f)" by (simp add: hexBytes_hex)
  then show "fst (serializeToBuffer obj') = fst (serializeToBuffer (GeometryLayout_new bufs topo f))"
    using c by (simp add: serializeToBuffer_def GeometryLayout_new_def Let_def)
qed

lemma decodeView_header:
  "decodeView (b # bs) = Inr obj \<Longrightarrow>
     \<exists>l. decodeView [b] = Inr l \<and> topology obj = topology l \<and> stripIndexFormat obj = stripIndexFormat l"
  by (auto simp: decodeView_def GeometryLayout_new_def Let_def split: sum.splits)

lemma decodeView_first_byte:
  "\<exists>l. decodeView [word_of_int (case stripFormatOf topo f of None \<Rightarrow> int (TopologyId topo)
                                  | Some x \<Rightarrow> int (TopologyId topo) + int (StripIndexFormatId x))]
          = Inr l
       \<and> topology l = Some topo \<and> stripIndexFormat l = stripFormatOf topo f"
  by (cases topo; cases f)
     (simp_all add: stripFormatOf_def decodeView_def GeometryLayout_new_def TopologyMask_def
        TopologyName_def StripIndexFormatName_def Let_def)

lemma new_layout_fields:
  "topology (GeometryLayout_new bufs (Some topo) f) = Some topo"
  "stripIndexFormat (GeometryLayout_new bufs (Some topo) f) = stripFormatOf topo f"
  by (auto simp: GeometryLayout_new_def stripFormatOf_def)

lemma layoutKey_header:
  "\<exists>b bs l. hexBytes (layoutKey bufs topo fo) = b # bs \<and> decodeView [b] = Inr l
      \<and> topology l = Some topo
      \<and> stripIndexFormat l = stripFormatOf topo (case fo of None \<Rightarrow> index_uint32 | Some f \<Rightarrow> f)"
proof -
  let ?f = "case fo of None \<Rightarrow> index_uint32 | Some f \<Rightarrow> f"
  let ?new = "GeometryLayout_new (copyBuffers bufs) (Some topo) ?f"
  obtain k obj where s: "serializeToString ?new = (k, obj)" by (cases "serializeToString ?new")
  have k: "layoutKey bufs topo fo = concat (map Uint8ToHex (encodeLayout ?new))"
    using serializeToString_new(1) [OF s] s by (simp add: layoutKey_def)
  have e: "encodeLayout ?new
      = word_of_int (case stripFormatOf topo ?f of None \<Rightarrow> int (TopologyId topo)
                      | Some x \<Rightarrow> int (TopologyId topo) + int (StripIndexFormatId x))
        # concat (map encodeBuffer (copyBuffers bufs))"
    by (simp add: encodeLayout_def setUint8_def new_layout_fields Let_def)
      (simp add: GeometryLayout_new_def)
  show ?thesis
    unfolding k hexBytes_hex e using decodeView_first_byte [of topo ?f] by blast
qed

lemma header_ok_layoutKey:
  assumes "header_ok (layoutKey bufs topo fo) obj"
  shows "topology obj = Some topo"
    and "stripIndexFormat obj = stripFormatOf topo (case fo of None \<Rightarrow> index_uint32 | Some f \<Rightarrow> f)"
proof -
  obtain b bs l where a: "hexBytes (layoutKey bufs topo fo) = b # bs" "decodeView [b] = Inr l"
      "topology l = Some topo"
      "stripIndexFormat l = stripFormatOf topo (case fo of None \<Rightarrow> index_uint32 | Some f \<Rightarrow> f)"
    using layoutKey_header by blast
  obtain b' bs' l' where b: "hexBytes (layoutKey bufs topo fo) = b' # bs'" "decodeView [b'] = Inr l'"
      "topology obj = topology l'" "stripIndexFormat obj = stripIndexFormat l'"
    using assms unfolding header_ok_def by blast
  have "l' = l" using a(1,2) b(1,2) by simp
  then show "topology obj = Some topo"
    "stripIndexFormat obj = stripFormatOf topo (case fo of None \<Rightarrow> index_uint32 | Some f \<Rightarrow> f)"
    using a b by simp_all
qed

lemma hdr_inv_new: "hdr_inv new_cache"
  by (simp add: hdr_inv_def new_cache_def)

lemma hdr_inv_extend:
  assumes inv: "cache_inv st" and hdr: "hdr_inv st" and ext: "extends st st'"
    and new: "\<And>k i r obj. keyMap st' k = Some i \<Longrightarrow> keyMap st k \<noteq> Some i
                \<Longrightarrow> cache st' i = Some r \<Longrightarrow> heap st' r = Some obj \<Longrightarrow> header_ok k obj"
  shows "hdr_inv st'"
  unfolding hdr_inv_def
proof (intro allI impI)
  fix k i r obj
  assume a: "keyMap st' k = Some i" "cache st' i = Some r" "heap st' r = Some obj"
  show "header_ok k obj"
  proof (cases "keyMap st k = Some i")
    case True
    then obtain r1 o1 where r1: "cache st i = Some r1" "heap st r1 = Some o1"
      using inv unfolding cache_inv_def by blast
    then have "cache st' i = Some r1" "heap st' r1 = heap st r1"
      using ext unfolding extends_def by blast+
    then have "r = r1" "obj = o1" using a r1 by simp_all
    then show ?thesis using hdr True r1 unfolding hdr_inv_def by blast
  next
    case False
    then show ?thesis using new a by blast
  qed
qed

lemma createLayout_miss:
  assumes "keyMap st (layoutKey bufs topo fo) = None"
    and "createLayout st bufs topo fo = (res, st')"
  shows "keyMap st' = (keyMap st)(layoutKey bufs topo fo \<mapsto> nextId st)"
    and "cache st' = (cache st)(nextId st \<mapsto> nextRef st)"
    and "\<exists>obj. heap st' (nextRef st) = Some obj \<and> topology obj = Some topo
          \<and> stripIndexFormat obj = stripFormatOf topo (case fo of None \<Rightarrow> index_uint32 | Some f \<Rightarrow> f)"
proof -
  let ?new = "GeometryLayout_new (copyBuffers bufs) (Some topo)
                (case fo of None \<Rightarrow> index_uint32 | Some f \<Rightarrow> f)"
  obtain k obj where s: "serializeToString ?new = (k, obj)" by (cases "serializeToString ?new")
  have k: "k = layoutKey bufs topo fo" using s by (simp add: layoutKey_def)
  note so = serializeToString_new [OF s]
  have st': "st' = snd (addLayoutToCache (snd (alloc st obj)) (nextRef st) k)"
    using assms s k by (auto simp: createLayout_def alloc_def Let_def split_beta)
  show "keyMap st' = (keyMap st)(layoutKey bufs topo fo \<mapsto> nextId st)"
    "cache st' = (cache st)(nextId st \<mapsto> nextRef st)"
    unfolding st' k by (simp_all add: addLayoutToCache_def alloc_def Let_def)
  have "heap st' (nextRef st) = Some (obj\<lparr>layout_id := Some (nextId st)\<rparr>)"
    unfolding st' by (simp add: addLayoutToCache_def alloc_def Let_def)
  then show "\<exists>obj. heap st' (nextRef st) = Some obj \<and> topology obj = Some topo
          \<and> stripIndexFormat obj = stripFormatOf topo (case fo of None \<Rightarrow> index_uint32 | Some f \<Rightarrow> f)"
    using so new_layout_fields by simp
qed

lemma deserializeLayout_miss:
  assumes "keyMap st key = None"
    and "deserializeLayout st key = Inr (res, st')"
  shows "keyMap st' = (keyMap st)(key \<mapsto> nextId st)"
    and "cache st' = (cache st)(nextId st \<mapsto> nextRef st)"
    and "\<exists>obj. heap st' (nextRef st) = Some obj \<and> header_ok key obj"
proof -
  obtain obj where d: "deserializeFromString key = Inr obj"
    using assms by (auto simp: deserializeLayout_def split: sum.splits)
  have st': "st' = snd (addLayoutToCache (snd (alloc st obj)) (nextRef st) key)"
    using assms d by (auto simp: deserializeLayout_def alloc_def Let_def split_beta)
  show "keyMap st' = (keyMap st)(key \<mapsto> nextId st)"
    "cache st' = (cache st)(nextId st \<mapsto> nextRef st)"
    unfolding st' by (simp_all add: addLayoutToCache_def alloc_def Let_def)
  have h: "heap st' (nextRef st) = Some (obj\<lparr>layout_id := Some (nextId st)\<rparr>)"
    unfolding st' by (simp add: addLayoutToCache_def alloc_def Let_def)
  obtain l where l: "decodeView (hexBytes key) = Inr l"
      and o: "obj = l\<lparr>serializedBuffer := Some (hexBytes key), serializedString := Some key\<rparr>"
    using d
    by (auto simp: deserializeFromString_def deserializeFromBuffer_def DataView_new_def Let_def
             split: sum.splits)
  obtain b bs where bs: "hexBytes key = b # bs"
    using l by (cases "hexBytes key") (auto simp: decodeView_def)
  from decodeView_header [OF l [unfolded bs]] obtain l0 where
    "decodeView [b] = Inr l0" "topology l = topology l0" "stripIndexFormat l = stripIndexFormat l0"
    by blast
  then have "header_ok key (obj\<lparr>layout_id := Some (nextId st)\<rparr>)"
    unfolding header_ok_def using bs o by auto
  then show "\<exists>obj. heap st' (nextRef st) = Some obj \<and> header_ok key obj" using h by blast
qed

lemma createLayout_hdr_inv:
  assumes inv: "cache_inv st" and hdr: "hdr_inv st"
    and c: "createLayout st bufs topo fo = (res, st')"
  shows "hdr_inv st'"
proof (rule hdr_inv_extend [OF inv hdr createLayout_inv(2) [OF inv c]])
  fix k i r obj
  assume a: "keyMap st' k = Some i" "keyMap st k \<noteq> Some i" "cache st' i = Some r" "heap st' r = Some obj"
  have km: "keyMap st (layoutKey bufs topo fo) = None"
  proof (rule ccontr)
    assume "keyMap st (layoutKey bufs topo fo) \<noteq> None"
    then obtain j where j: "keyMap st (layoutKey bufs topo fo) = Some j" by blast
    then have "keyMap st' = (keyMap st)(layoutKey bufs topo fo \<mapsto> j)"
      using createLayout_inv(3) [OF inv c] by auto
    then have "keyMap st' = keyMap st" using j by (auto simp: fun_upd_idem)
    then show False using a by simp
  qed
  note m = createLayout_miss [OF km c]
  have kk: "k = layoutKey bufs topo fo \<and> i = nextId st"
    using a(1,2) m(1) by (auto split: if_splits)
  then have "r = nextRef st" using a(3) m(2) by simp
  then obtain "topology obj = Some topo"
    "stripIndexFormat obj = stripFormatOf topo (case fo of None \<Rightarrow> index_uint32 | Some f \<Rightarrow> f)"
    using m(3) a(4) by auto
  then show "header_ok k obj"
    using layoutKey_header [of bufs topo fo] kk unfolding header_ok_def by auto
qed

lemma deserializeLayout_hdr_inv:
  assumes inv: "cache_inv st" and hdr: "hdr_inv st"
    and c: "deserializeLayout st key = Inr (res, st')"
  shows "hdr_inv st'"
proof (rule hdr_inv_extend [OF inv hdr deserializeLayout_inv(2) [OF inv c]])
  fix k i r obj
  assume a: "keyMap st' k = Some i" "keyMap st k \<noteq> Some i" "cache st' i = Some r" "heap st' r = Some obj"
  have km: "keyMap st key = None"
  proof (rule ccontr)
    assume "keyMap st key \<noteq> None"
    then have "st' = st" using c by (auto simp: deserializeLayout_def)
    then show False using a by simp
  qed
  note m = deserializeLayout_miss [OF km c]
  have kk: "k = key \<and> i = nextId st"
    using a(1,2) m(1) by (auto split: if_splits)
  then have "r = nextRef st" using a(3) m(2) by simp
  then show "header_ok k obj" using m(3) a(4) kk by auto
qed

lemma step_hdr_inv:
  assumes inv: "cache_inv st" and hdr: "hdr_inv st" and s: "step c st = (res, st')"
  shows "hdr_inv st'"
proof (cases c)
  case (CreateLayout bufs topo fo)
  then have "createLayout st bufs topo fo = (res, st')" using s by simp
  then show ?thesis by (rule createLayout_hdr_inv [OF inv hdr])
next
  case (DeserializeLayout key)
  show ?thesis
  proof (cases "deserializeLayout st key")
    case (Inl e)
    then have "st' = st" using s DeserializeLayout by simp
    then show ?thesis using hdr by simp
  next
    case (Inr p)
    then have "deserializeLayout st key = Inr (res, st')" using s DeserializeLayout by auto
    then show ?thesis by (rule deserializeLayout_hdr_inv [OF inv hdr])
  qed
qed

lemma run_hdr_inv: "cache_inv st \<Longrightarrow> hdr_inv st \<Longrightarrow> hdr_inv (run cs st)"
proof (induction cs arbitrary: st)
  case Nil
  then show ?case by simp
next
  case (Cons c cs)
  obtain res st' where s: "step c st = (res, st')" by (cases "step c st")
  have "hdr_inv (run cs st')"
    using Cons.IH step_inv(1) [OF Cons.prems(1) s] step_hdr_inv [OF Cons.prems s] by blast
  then show ?case using s by simp
qed

section \<open>Properties of buildGeometry\<close>

lemma intakeAttrib_Inr:
  assumes "intakeAttrib n a s = Inr s'"
  shows "\<exists>v. resolveValues a = Some v
     \<and> (case map_of (arraySource s) (objectId v) of
          Some src \<Rightarrow> arraySource s' = arraySource s \<and> maxVertices s' = maxVertices s
        | None \<Rightarrow> fst ` set (arraySource s') = insert (objectId v) (fst ` set (arraySource s))
                  \<and> maxVertices s' = Math_min (maxVertices s) (js_div (byteLength (kind v)) (attribStride n a)))"
  using assms
  by (auto simp: intakeAttrib_def Let_def split: option.splits)

lemma intakeLoop_maxVertices:
  "intakeLoop names desc s = Inr s' \<Longrightarrow>
     maxVertices s' = foldl Math_min (maxVertices s)
        (map quotient (firstUses (fst ` set (arraySource s)) (List.map_filter (sourceOf desc) names)))"
proof (induction names arbitrary: s)
  case Nil
  then show ?case by (simp add: List.map_filter_simps)
next
  case (Cons n names)
  show ?case
  proof (cases "attrib desc n")
    case None
    then have "sourceOf desc n = None" by (simp add: sourceOf_def)
    moreover have "intakeLoop names desc s = Inr s'" using Cons.prems None by simp
    ultimately show ?thesis using Cons.IH by (simp add: List.map_filter_simps)
  next
    case (Some a)
    then obtain s1 where s1: "intakeAttrib n a s = Inr s1" "intakeLoop names desc s1 = Inr s'"
      using Cons.prems by (auto split: sum.splits)
    from intakeAttrib_Inr [OF s1(1)] obtain v where v: "resolveValues a = Some v"
      and c: "case map_of (arraySource s) (objectId v) of
          Some src \<Rightarrow> arraySource s1 = arraySource s \<and> maxVertices s1 = maxVertices s
        | None \<Rightarrow> fst ` set (arraySource s1) = insert (objectId v) (fst ` set (arraySource s))
                  \<and> maxVertices s1 = Math_min (maxVertices s) (js_div (byteLength (kind v)) (attribStride n a))"
      by blast
    have so: "sourceOf desc n = Some (objectId v, byteLength (kind v), attribStride n a)"
      using Some v by (simp add: sourceOf_def)
    note ih = Cons.IH [OF s1(2)]
    show ?thesis
    proof (cases "map_of (arraySource s) (objectId v)")
      case None
      then have "objectId v \<notin> fst ` set (arraySource s)" by (simp add: map_of_eq_None_iff)
      then show ?thesis using None c ih so by (simp add: List.map_filter_simps quotient_def)
    next
      case (Some src)
      then have "(objectId v, src) \<in> set (arraySource s)" by (rule map_of_SomeD)
      then have "objectId v \<in> fst ` set (arraySource s)" by force
      then show ?thesis using Some c ih so by (simp add: List.map_filter_simps)
    qed
  qed
qed

lemma buildGeometry_drawCount:
  assumes "buildGeometry st desc = Inr (g, st')"
  shows "\<exists>s. intakeLoop AttribNames desc intake0 = Inr s
     \<and> geometry_drawCount g =
         (case drawCount desc of
            Some c \<Rightarrow> c
          | None \<Rightarrow> (case indices desc of
                       Some a \<Rightarrow> Num (of_nat (indexLength a))
                     | None \<Rightarrow> maxVertices s))"
proof -
  have il: "\<And>a. indexLength (normalizeIndices a) = indexLength a"
  proof -
    fix a show "indexLength (normalizeIndices a) = indexLength a" by (cases a) simp_all
  qed
  show ?thesis
    using assms
    by (auto simp: buildGeometry_def Let_def split_beta il split: sum.splits if_splits option.splits)
qed

text \<open>
  Quotients of doubles, evaluated: an exact quotient is returned as it is, another one is
  rounded (\<open>10 / 3\<close> is \<open>3.3333333333333335\<close>, \<open>1 / 10\<close> is \<open>0.1\<close>).
\<close>

lemma floor_rat_numeral:
  "\<lfloor>(numeral a / numeral b :: rat)\<rfloor> = numeral a div numeral b"
  using floor_divide_of_int_eq [of "numeral a" "numeral b", where ?'a = rat] by simp

lemmas double_defs = js_div_def toDouble_def ulp_def roundHalfEven_def binade.simps Let_def
  floor_rat_numeral

lemma js_div_24_4: "js_div 24 4 = Num 6"
  by (simp add: double_defs)

lemma js_div_24_12: "js_div 24 12 = Num 2"
  by (simp add: double_defs)

lemma js_div_48_12: "js_div 48 12 = Num 4"
  by (simp add: double_defs)

lemma js_div_36_12: "js_div 36 12 = Num 3"
  by (simp add: double_defs)

lemma js_div_10_3: "js_div 10 3 = Num (7505999378950827 / 2251799813685248)"
  by (simp add: double_defs)

lemma js_div_1_10: "js_div 1 10 = Num (3602879701896397 / 36028797018963968)"
  by (simp add: double_defs)

lemma js_div_zero: "js_div 0 0 = NaN" "js_div 12 0 = Infinity" "js_div 0 12 = Num 0"
  by (simp_all add: double_defs)

lemmas js_div_values = js_div_24_4 js_div_24_12 js_div_48_12 js_div_36_12

text \<open>
  Claim C8 (drawCount), refuted as stated: position and normal share one 24-byte source,
  with strides 4 and 12.  The quotients of the two attributes are 6 and 2, and the build
  returns 6: the source is met at position, and normal, which reuses it, is not counted.
\<close>

theorem drawCount_ignores_later_users:
  "map_sum id (\<lambda>r. geometry_drawCount (fst r)) (buildGeometry new_cache shared_source) = Inr (Num 6)
   \<and> map quotient (sources shared_source) = [Num 6, Num 2]
   \<and> foldl Math_min MAX_SAFE_INTEGER (map quotient (sources shared_source)) = Num 2"
proof -
  have "map quotient (sources shared_source) = [Num 6, Num 2]"
    by (simp add: sources_def sourceOf_def shared_source_def AttribNames_def List.map_filter_simps
        quotient_def js_div_values)
  moreover have "map_sum id (\<lambda>r. geometry_drawCount (fst r)) (buildGeometry new_cache shared_source)
      = Inr (Num 6)"
    by (simp add: buildGeometry_def shared_source_def AttribNames_def intake0_def intakeAttrib_def
        NormalizeBufferLayout_def sortLayouts_def normalizeGroup_def pushLayout_def
        absoluteAttribs_def Let_def split_beta js_div_values MAX_SAFE_INTEGER_def)
  ultimately show ?thesis by (simp add: MAX_SAFE_INTEGER_def)
qed

text \<open>
  Claim C8 as amended: when a build returns and was given neither \<open>drawCount\<close> nor
  indices, its \<open>drawCount\<close> is the least of \<open>MAX_SAFE_INTEGER\<close> and, for every distinct
  source, the quotient of the source's byte size by the stride of the first attribute, in
  slot order, that uses the source.  With indices and no \<open>drawCount\<close> it is the number of
  indices; a given \<open>drawCount\<close> is returned as it is.
\<close>

theorem buildGeometry_drawCount_first_users:
  "buildGeometry st desc = Inr (g, st') \<longrightarrow>
     (drawCount desc = None \<and> indices desc = None \<longrightarrow>
        geometry_drawCount g
          = foldl Math_min MAX_SAFE_INTEGER (map quotient (firstUses {} (sources desc))))
     \<and> (drawCount desc = None \<and> indices desc = Some ia \<longrightarrow>
          geometry_drawCount g = Num (of_nat (indexLength ia)))
     \<and> (drawCount desc = Some c \<longrightarrow> geometry_drawCount g = c)"
proof
  assume b: "buildGeometry st desc = Inr (g, st')"
  from buildGeometry_drawCount [OF b] obtain s where s: "intakeLoop AttribNames desc intake0 = Inr s"
    and d: "geometry_drawCount g =
         (case drawCount desc of
            Some c \<Rightarrow> c
          | None \<Rightarrow> (case indices desc of
                       Some a \<Rightarrow> Num (of_nat (indexLength a))
                     | None \<Rightarrow> maxVertices s))"
    by blast
  have "maxVertices s = foldl Math_min MAX_SAFE_INTEGER (map quotient (firstUses {} (sources desc)))"
    using intakeLoop_maxVertices [OF s] by (simp add: intake0_def sources_def)
  then show "(drawCount desc = None \<and> indices desc = None \<longrightarrow>
        geometry_drawCount g
          = foldl Math_min MAX_SAFE_INTEGER (map quotient (firstUses {} (sources desc))))
     \<and> (drawCount desc = None \<and> indices desc = Some ia \<longrightarrow>
          geometry_drawCount g = Num (of_nat (indexLength ia)))
     \<and> (drawCount desc = Some c \<longrightarrow> geometry_drawCount g = c)"
    using d by simp
qed

lemmas build_defs = buildGeometry_def AttribNames_def intake0_def intakeAttrib_def
  NormalizeBufferLayout_def sortLayouts_def normalizeGroup_def pushLayout_def
  absoluteAttribs_def Let_def split_beta js_div_values MAX_SAFE_INTEGER_def

lemma build_shared_source:
  "map_sum id (\<lambda>r. geometry_drawCount (fst r)) (buildGeometry new_cache shared_source) = Inr (Num 6)"
  by (simp add: shared_source_def build_defs)

text \<open>Ten bytes with stride 3: the build returns the double \<open>3.3333333333333335\<close>.\<close>

lemma build_ten_by_three:
  "map_sum id (\<lambda>r. geometry_drawCount (fst r)) (buildGeometry new_cache ten_by_three)
     = Inr (Num (7505999378950827 / 2251799813685248))"
  by (simp add: ten_by_three_def build_defs js_div_10_3)

lemma build_strip_indexed:
  "map_sum id (\<lambda>r. geometry_drawCount (fst r)) (buildGeometry new_cache strip_indexed) = Inr (Num 4)"
  by (simp add: strip_indexed_def build_defs)

lemma build_list_indexed:
  "map_sum id (\<lambda>r. geometry_drawCount (fst r)) (buildGeometry new_cache list_indexed) = Inr (Num 3)"
  by (simp add: list_indexed_def build_defs)

lemma map_sum_Inr_ex: "map_sum f h x = Inr y \<Longrightarrow> \<exists>g st'. x = Inr (g, st')"
  by (cases x) auto

lemma isUint16Array_normalize:
  "isUint16Array (map_option normalizeIndices a) = isUint16Array a"
proof (cases a)
  case None
  then show ?thesis by simp
next
  case (Some ia)
  then show ?thesis by (cases ia) simp_all
qed

lemma buildGeometry_parts:
  assumes "buildGeometry st desc = Inr (g, st')"
  shows "\<exists>bufferLayouts :: nat BufferLayout list.
      createLayout st bufferLayouts
        (case desc_topology desc of Some t \<Rightarrow> t | None \<Rightarrow> triangle_list)
        (Some (if isUint16Array (indices desc) then index_uint16 else index_uint32))
        = (layout g, st')"
    and "indexBinding g =
      map_option (\<lambda>a. \<lparr> ib_format = (if isUint16Array (indices desc) then index_uint16 else index_uint32),
                          ib_contents = a, ib_offset = 0, ib_size = indexByteLength a \<rparr>)
        (map_option normalizeIndices (indices desc))"
  using assms
  by (auto simp: buildGeometry_def Let_def split_beta isUint16Array_normalize
           split: sum.splits if_splits)

text \<open>
  Claim C9 (indices): whatever the cache has seen, a build that returns keeps a
  \<open>Uint16Array\<close> of indices as it is, with format \<open>uint16\<close>; a \<open>Uint32Array\<close> stays,
  and a plain array of numbers becomes a \<open>Uint32Array\<close>, both with format \<open>uint32\<close>;
  without indices there is no index binding.  The layout it returns has the topology of
  the descriptor (\<open>triangle-list\<close> when none is given) and carries that index format as
  its \<open>stripIndexFormat\<close> exactly when the topology is one of the two strip topologies.
  The descriptor's indices are of the documented types.
\<close>

theorem buildGeometry_index_format:
  "buildGeometry (run ops new_cache) desc = Inr (g, st') \<longrightarrow>
     (indices desc = Some (Uint16Array xs) \<longrightarrow>
        indexBinding g = Some \<lparr> ib_format = index_uint16, ib_contents = Uint16Array xs,
                                ib_offset = 0, ib_size = 2 * length xs \<rparr>)
   \<and> (indices desc = Some (Uint32Array ys) \<longrightarrow>
        indexBinding g = Some \<lparr> ib_format = index_uint32, ib_contents = Uint32Array ys,
                                ib_offset = 0, ib_size = 4 * length ys \<rparr>)
   \<and> (indices desc = Some (NumberArray ns) \<longrightarrow>
        indexBinding g = Some \<lparr> ib_format = index_uint32,
                                ib_contents = Uint32Array (map word_of_int ns),
                                ib_offset = 0, ib_size = 4 * length ns \<rparr>)
   \<and> (indices desc = None \<longrightarrow> indexBinding g = None)
   \<and> (\<exists>r obj. layout g = Some r \<and> heap st' r = Some obj
        \<and> topology obj = Some (case desc_topology desc of Some t \<Rightarrow> t | None \<Rightarrow> triangle_list)
        \<and> stripIndexFormat obj =
            (if desc_topology desc = Some triangle_strip \<or> desc_topology desc = Some line_strip
             then Some (if isUint16Array (indices desc) then index_uint16 else index_uint32)
             else None))"
proof
  assume b: "buildGeometry (run ops new_cache) desc = Inr (g, st')"
  let ?st = "run ops new_cache"
  let ?topo = "case desc_topology desc of Some t \<Rightarrow> t | None \<Rightarrow> triangle_list"
  let ?fmt = "if isUint16Array (indices desc) then index_uint16 else index_uint32"
  note p = buildGeometry_parts [OF b]
  obtain bufferLayouts :: "nat BufferLayout list"
    where c: "createLayout ?st bufferLayouts ?topo (Some ?fmt) = (layout g, st')"
    using p(1) by blast
  have inv: "cache_inv ?st" using run_inv [OF cache_inv_new] by blast
  have hdr: "hdr_inv ?st" by (rule run_hdr_inv [OF cache_inv_new hdr_inv_new])
  have inv': "cache_inv st'" by (rule createLayout_inv(1) [OF inv c])
  have hdr': "hdr_inv st'" by (rule createLayout_hdr_inv [OF inv hdr c])
  obtain i r obj where r: "layout g = Some r"
      "keyMap st' (layoutKey bufferLayouts ?topo (Some ?fmt)) = Some i"
      "cache st' i = Some r" "heap st' r = Some obj"
    using createLayout_inv(3) [OF inv c] by blast
  have "header_ok (layoutKey bufferLayouts ?topo (Some ?fmt)) obj"
    using hdr' r unfolding hdr_inv_def by blast
  note h = header_ok_layoutKey [OF this]
  have "stripFormatOf ?topo ?fmt =
            (if desc_topology desc = Some triangle_strip \<or> desc_topology desc = Some line_strip
             then Some ?fmt else None)"
    by (auto simp: stripFormatOf_def split: option.splits)
  then have l: "\<exists>r obj. layout g = Some r \<and> heap st' r = Some obj
        \<and> topology obj = Some ?topo
        \<and> stripIndexFormat obj =
            (if desc_topology desc = Some triangle_strip \<or> desc_topology desc = Some line_strip
             then Some ?fmt else None)"
    using r h by simp
  show "(indices desc = Some (Uint16Array xs) \<longrightarrow>
        indexBinding g = Some \<lparr> ib_format = index_uint16, ib_contents = Uint16Array xs,
                                ib_offset = 0, ib_size = 2 * length xs \<rparr>)
   \<and> (indices desc = Some (Uint32Array ys) \<longrightarrow>
        indexBinding g = Some \<lparr> ib_format = index_uint32, ib_contents = Uint32Array ys,
                                ib_offset = 0, ib_size = 4 * length ys \<rparr>)
   \<and> (indices desc = Some (NumberArray ns) \<longrightarrow>
        indexBinding g = Some \<lparr> ib_format = index_uint32,
                                ib_contents = Uint32Array (map word_of_int ns),
                                ib_offset = 0, ib_size = 4 * length ns \<rparr>)
   \<and> (indices desc = None \<longrightarrow> indexBinding g = None)
   \<and> (\<exists>r obj. layout g = Some r \<and> heap st' r = Some obj
        \<and> topology obj = Some ?topo
        \<and> stripIndexFormat obj =
            (if desc_topology desc = Some triangle_strip \<or> desc_topology desc = Some line_strip
             then Some ?fmt else None))"
    using l p(2) by simp
qed

theorem buildGeometry_index_format_witness:
  "(\<exists>g st'. buildGeometry new_cache strip_indexed = Inr (g, st')
      \<and> indexBinding g = Some \<lparr> ib_format = index_uint16, ib_contents = Uint16Array [0, 1, 2, 3],
                               ib_offset = 0, ib_size = 8 \<rparr>
      \<and> (\<exists>r obj. layout g = Some r \<and> heap st' r = Some obj
            \<and> topology obj = Some triangle_strip \<and> stripIndexFormat obj = Some index_uint16))
   \<and> (\<exists>g st'. buildGeometry new_cache list_indexed = Inr (g, st')
      \<and> indexBinding g = Some \<lparr> ib_format = index_uint32, ib_contents = Uint32Array [0, 1, 2],
                               ib_offset = 0, ib_size = 12 \<rparr>
      \<and> (\<exists>r obj. layout g = Some r \<and> heap st' r = Some obj
            \<and> topology obj = Some triangle_list \<and> stripIndexFormat obj = None))"
proof (rule conjI)
  obtain g st' where b: "buildGeometry (run [] new_cache) strip_indexed = Inr (g, st')"
    using map_sum_Inr_ex [OF build_strip_indexed] by auto
  have i: "indices strip_indexed = Some (Uint16Array [0, 1, 2, 3])"
      "desc_topology strip_indexed = Some triangle_strip"
    by (simp_all add: strip_indexed_def)
  note T = buildGeometry_index_format [of "[]" strip_indexed g st' "[0, 1, 2, 3]" "[]" "[]", THEN mp, OF b]
  have "indexBinding g = Some \<lparr> ib_format = index_uint16, ib_contents = Uint16Array [0, 1, 2, 3],
                               ib_offset = 0, ib_size = 8 \<rparr>"
    using T i by simp
  moreover have "\<exists>r obj. layout g = Some r \<and> heap st' r = Some obj
            \<and> topology obj = Some triangle_strip \<and> stripIndexFormat obj = Some index_uint16"
    using T i by simp
  ultimately show "\<exists>g st'. buildGeometry new_cache strip_indexed = Inr (g, st')
      \<and> indexBinding g = Some \<lparr> ib_format = index_uint16, ib_contents = Uint16Array [0, 1, 2, 3],
                               ib_offset = 0, ib_size = 8 \<rparr>
      \<and> (\<exists>r obj. layout g = Some r \<and> heap st' r = Some obj
            \<and> topology obj = Some triangle_strip \<and> stripIndexFormat obj = Some index_uint16)"
    using b by auto
next
  obtain g st' where b: "buildGeometry (run [] new_cache) list_indexed = Inr (g, st')"
    using map_sum_Inr_ex [OF build_list_indexed] by auto
  have i: "indices list_indexed = Some (NumberArray [0, 1, 2])"
      "desc_topology list_indexed = None"
    by (simp_all add: list_indexed_def)
  note T = buildGeometry_index_format [of "[]" list_indexed g st' "[]" "[]" "[0, 1, 2]", THEN mp, OF b]
  have "indexBinding g = Some \<lparr> ib_format = index_uint32, ib_contents = Uint32Array [0, 1, 2],
                               ib_offset = 0, ib_size = 12 \<rparr>"
    using T i by simp
  moreover have "\<exists>r obj. layout g = Some r \<and> heap st' r = Some obj
            \<and> topology obj = Some triangle_list \<and> stripIndexFormat obj = None"
    using T i by simp
  ultimately show "\<exists>g st'. buildGeometry new_cache list_indexed = Inr (g, st')
      \<and> indexBinding g = Some \<lparr> ib_format = index_uint32, ib_contents = Uint32Array [0, 1, 2],
                               ib_offset = 0, ib_size = 12 \<rparr>
      \<and> (\<exists>r obj. layout g = Some r \<and> heap st' r = Some obj
            \<and> topology obj = Some triangle_list \<and> stripIndexFormat obj = None)"
    using b by auto
qed

theorem buildGeometry_drawCount_first_users_witness:
  "\<exists>g st'. buildGeometry new_cache shared_source = Inr (g, st')
      \<and> geometry_drawCount g
          = foldl Math_min MAX_SAFE_INTEGER (map quotient (firstUses {} (sources shared_source)))
      \<and> firstUses {} (sources shared_source) = [(0, 24, 4)]
      \<and> geometry_drawCount g = Num 6"
proof -
  obtain g st' where b: "buildGeometry new_cache shared_source = Inr (g, st')"
    using map_sum_Inr_ex [OF build_shared_source] by auto
  have i: "drawCount shared_source = None \<and> indices shared_source = None"
    by (simp add: shared_source_def)
  note T = buildGeometry_drawCount_first_users [of new_cache shared_source g st' "Uint16Array []" "Num 0",
             THEN mp, OF b, THEN conjunct1, THEN mp, OF i]
  have f: "firstUses {} (sources shared_source) = [(0, 24, 4)]"
    by (simp add: sources_def sourceOf_def shared_source_def AttribNames_def List.map_filter_simps)
  have "geometry_drawCount g = Num 6"
    unfolding T f by (simp add: quotient_def js_div_values MAX_SAFE_INTEGER_def)
  then show ?thesis using b T f by auto
qed

end
